theory Spec2Isabelle
  imports Main "HOL-Library.AList"
begin

section \<open>Data model\<close>

text \<open>
  Identifiers are strings in the source (branded string types); timestamps are
  JavaScript numbers holding whole milliseconds and are modelled as integers.
  A task's \<open>spec\<close> is an opaque payload here: the reconciler only copies it.
\<close>

type_synonym ID = string
type_synonym TaskID = ID
type_synonym EventID = ID
type_synonym TaskSpec = string
type_synonym IngestibleItemIdentifier = string

text \<open>JavaScript truthiness of a string: the empty string is falsy.\<close>

definition truthy :: "string \<Rightarrow> bool" where
  "truthy s = (s \<noteq> [])"

text \<open>An optional string property used as a condition: absent or empty is falsy.\<close>

fun truthyOpt :: "string option \<Rightarrow> string option" where
  "truthyOpt None = None"
| "truthyOpt (Some s) = (if truthy s then Some s else None)"

record TaskProvenance =
  "identifier" :: string
  title :: string
  url :: "string option"
  colorPaletteName :: "string option"

record ComponentSchedulingState =
  intervalMillis :: int
  dueTimestampMillis :: int
  historyCount :: nat

text \<open>
  A task entity. \<open>metadata\<close> and \<open>componentStates\<close> are JavaScript objects used as
  dictionaries; they are association lists read with \<open>map_of\<close>.
\<close>

record Task =
  id :: TaskID
  spec :: TaskSpec
  provenance :: "TaskProvenance option"
  componentStates :: "(string \<times> ComponentSchedulingState) list"
  isDeleted :: bool
  metadata :: "(string \<times> string) list"

record IngestibleItem =
  "identifier" :: IngestibleItemIdentifier
  spec :: TaskSpec

record IngestibleSource =
  "identifier" :: string
  title :: string
  url :: "string option"
  colorPaletteName :: "string option"
  items :: "IngestibleItem list"

text \<open>
  The three event types the reconciler creates. The \<open>type\<close> tag of the source is
  the constructor of \<open>Event\<close>.
\<close>

record TaskIngestEvent =
  id :: EventID
  spec :: TaskSpec
  entityID :: TaskID
  timestampMillis :: int
  metadata :: "(string \<times> string) list"
  provenance :: TaskProvenance

record TaskUpdateDeletedEvent =
  id :: EventID
  entityID :: TaskID
  timestampMillis :: int
  isDeleted :: bool

record TaskUpdateProvenanceEvent =
  id :: EventID
  entityID :: TaskID
  timestampMillis :: int
  provenance :: TaskProvenance

datatype Event =
  TaskIngest TaskIngestEvent
| TaskUpdateDeleted TaskUpdateDeletedEvent
| TaskUpdateProvenance TaskUpdateProvenanceEvent

record IngestOptions =
  ingestDateMillis :: int

datatype IngestError =
  MissingItemIdentifierError
| DuplicateItemIdentifierError string

definition INGEST_ITEM_IDENTIFIER_KEY :: string where
  "INGEST_ITEM_IDENTIFIER_KEY = ''ingestSourceIdentifier''"

subsection \<open>The store\<close>

datatype EntityType = TaskType | AttachmentReferenceType

datatype Entity = TaskEntity Task | AttachmentReferenceEntity ID

record DatabaseBackendEntityRecord =
  entity :: Entity
  lastEventID :: EventID
  lastEventTimestampMillis :: int

record TaskComponentRow =
  taskID :: TaskID
  componentID :: string
  dueTimestampMillis :: int

text \<open>
  The three logical tables: entity records keyed by entity id, the event log, and the
  derived rows of task components keyed by task id and component id.
\<close>

record Database =
  entities :: "(ID \<times> DatabaseBackendEntityRecord) list"
  events :: "Event list"
  derived_taskComponents :: "((TaskID \<times> string) \<times> TaskComponentRow) list"

record OrbitStore =
  database :: Database

record DatabaseEntityQuery =
  entityType :: EntityType

fun entityTypeOf :: "Entity \<Rightarrow> EntityType" where
  "entityTypeOf (TaskEntity t) = TaskType"
| "entityTypeOf (AttachmentReferenceEntity a) = AttachmentReferenceType"

fun tasksOf :: "Entity list \<Rightarrow> Task list" where
  "tasksOf [] = []"
| "tasksOf (TaskEntity t # es) = t # tasksOf es"
| "tasksOf (AttachmentReferenceEntity a # es) = tasksOf es"

text \<open>
  Modelled from the spec: \<open>listEntities\<close> belongs to the database backend, which is
  not among the sources. The spec describes it as a filter query over the entity type
  that yields a finite sequence of entities and observes committed state only; it
  returns the matching entities in table order and the database as it found it.
\<close>

definition listEntities :: "DatabaseEntityQuery \<Rightarrow> Database \<Rightarrow> Entity list \<times> Database" where
  "listEntities query db =
     (filter (\<lambda>e. entityTypeOf e = entityType query) (map (entity \<circ> snd) (entities db)), db)"

subsection \<open>Unique identifiers\<close>

text \<open>
  Modelled from the spec: \<open>generateUniqueID\<close> is imported from the core package,
  which is not among the sources. Event ids are unique; the generator is modelled as a
  counter that is threaded through every call, the \<open>n\<close>-th draw being \<open>uniqueID n\<close>.
\<close>

definition uniqueID :: "nat \<Rightarrow> ID" where
  "uniqueID n = ''uid:'' @ replicate n (CHR ''+'')"

definition generateUniqueID :: "nat \<Rightarrow> ID \<times> nat" where
  "generateUniqueID g = (uniqueID g, Suc g)"

section \<open>The ingestion reconciler\<close>

text \<open>
  A JavaScript \<open>Map\<close> keeps its entries in insertion order; \<open>set\<close> on a key that is
  present replaces the value in place, \<open>set\<close> on a new key appends. It is an
  association list with \<open>map_of\<close> for \<open>get\<close>, \<open>AList.update\<close> for \<open>set\<close> and
  \<open>AList.delete\<close> for \<open>delete\<close>. Every value stored below is an object or a
  non-empty array, so \<open>if (m.get(k))\<close> tests presence.
\<close>

fun groupEntitiesByProvenanceIdentifiers_step ::
  "(string \<times> Task list) list \<Rightarrow> Task \<Rightarrow> (string \<times> Task list) list" where
  "groupEntitiesByProvenanceIdentifiers_step mapping ent =
     (case Task.provenance ent of
        None \<Rightarrow> mapping
      | Some p \<Rightarrow>
          (case map_of mapping (TaskProvenance.identifier p) of
             Some existing \<Rightarrow> AList.update (TaskProvenance.identifier p) (existing @ [ent]) mapping
           | None \<Rightarrow> AList.update (TaskProvenance.identifier p) [ent] mapping))"

definition groupEntitiesByProvenanceIdentifiers :: "Task list \<Rightarrow> (string \<times> Task list) list" where
  "groupEntitiesByProvenanceIdentifiers ents =
     foldl groupEntitiesByProvenanceIdentifiers_step [] ents"

fun mapEntitiesByItemIdentifier_loop ::
  "Task list \<Rightarrow> (IngestibleItemIdentifier \<times> Task) list
     \<Rightarrow> IngestError + (IngestibleItemIdentifier \<times> Task) list" where
  "mapEntitiesByItemIdentifier_loop [] mapping = Inr mapping"
| "mapEntitiesByItemIdentifier_loop (ent # rest) mapping =
     (case map_of (Task.metadata ent) INGEST_ITEM_IDENTIFIER_KEY of
        None \<Rightarrow> Inl MissingItemIdentifierError
      | Some itemID \<Rightarrow>
          (if truthy itemID
           then mapEntitiesByItemIdentifier_loop rest (AList.update itemID ent mapping)
           else Inl MissingItemIdentifierError))"

definition mapEntitiesByItemIdentifier ::
  "Task list \<Rightarrow> IngestError + (IngestibleItemIdentifier \<times> Task) list" where
  "mapEntitiesByItemIdentifier ents = mapEntitiesByItemIdentifier_loop ents []"

fun mapIngestibleItemsByItemIdentifier_loop ::
  "IngestibleItem list \<Rightarrow> (IngestibleItemIdentifier \<times> IngestibleItem) list
     \<Rightarrow> IngestError + (IngestibleItemIdentifier \<times> IngestibleItem) list" where
  "mapIngestibleItemsByItemIdentifier_loop [] mapping = Inr mapping"
| "mapIngestibleItemsByItemIdentifier_loop (item # rest) mapping =
     (if map_of mapping (IngestibleItem.identifier item) = None
      then mapIngestibleItemsByItemIdentifier_loop rest
             (AList.update (IngestibleItem.identifier item) item mapping)
      else Inl (DuplicateItemIdentifierError (IngestibleItem.identifier item)))"

definition mapIngestibleItemsByItemIdentifier ::
  "IngestibleItem list \<Rightarrow> IngestError + (IngestibleItemIdentifier \<times> IngestibleItem) list" where
  "mapIngestibleItemsByItemIdentifier its = mapIngestibleItemsByItemIdentifier_loop its []"

definition provenanceOfSource :: "IngestibleSource \<Rightarrow> TaskProvenance" where
  "provenanceOfSource source =
     \<lparr>TaskProvenance.identifier = IngestibleSource.identifier source,
      title = IngestibleSource.title source,
      url = truthyOpt (IngestibleSource.url source),
      colorPaletteName = truthyOpt (IngestibleSource.colorPaletteName source)\<rparr>"

definition createIngestTaskForSource ::
  "IngestibleSource \<Rightarrow> int \<Rightarrow> IngestibleItem \<Rightarrow> nat \<Rightarrow> TaskIngestEvent \<times> nat" where
  "createIngestTaskForSource source insertTimestampMilis item g =
     (let (eventID, g1) = generateUniqueID g;
          (taskID, g2) = generateUniqueID g1
      in (\<lparr>TaskIngestEvent.id = eventID,
           spec = IngestibleItem.spec item,
           entityID = taskID,
           timestampMillis = insertTimestampMilis,
           metadata = [(INGEST_ITEM_IDENTIFIER_KEY, IngestibleItem.identifier item)],
           provenance = provenanceOfSource source\<rparr>, g2))"

definition createDeleteTaskEvent :: "Task \<Rightarrow> int \<Rightarrow> nat \<Rightarrow> TaskUpdateDeletedEvent \<times> nat" where
  "createDeleteTaskEvent task ts g =
     (let (eventID, g1) = generateUniqueID g
      in (\<lparr>TaskUpdateDeletedEvent.id = eventID,
           entityID = Task.id task,
           timestampMillis = ts,
           isDeleted = True\<rparr>, g1))"

definition createUpdateProvenanceEvent ::
  "TaskID \<Rightarrow> TaskIngestEvent \<Rightarrow> nat \<Rightarrow> TaskUpdateProvenanceEvent \<times> nat" where
  "createUpdateProvenanceEvent originalEntityId ingestEvent g =
     (let (eventID, g1) = generateUniqueID g
      in (\<lparr>TaskUpdateProvenanceEvent.id = eventID,
           entityID = originalEntityId,
           timestampMillis = TaskIngestEvent.timestampMillis ingestEvent,
           provenance = TaskIngestEvent.provenance ingestEvent\<rparr>, g1))"

type_synonym IngestEvents = "(IngestibleItemIdentifier \<times> TaskIngestEvent) list"
type_synonym DeleteEvents = "(IngestibleItemIdentifier \<times> TaskUpdateDeletedEvent) list"

text \<open>The loop over the incoming items of a source that has an existing group.\<close>

fun ingestSources_newItems ::
  "IngestibleSource \<Rightarrow> int \<Rightarrow> (IngestibleItemIdentifier \<times> Task) list
     \<Rightarrow> (IngestibleItemIdentifier \<times> IngestibleItem) list
     \<Rightarrow> IngestEvents \<times> nat \<Rightarrow> IngestEvents \<times> nat" where
  "ingestSources_newItems source timeMillis existing [] st = st"
| "ingestSources_newItems source timeMillis existing ((key, potentialNewItem) # rest) (ingestEvents, g) =
     (if map_of existing key = None
      then (let (ev, g1) = createIngestTaskForSource source timeMillis potentialNewItem g
            in ingestSources_newItems source timeMillis existing rest
                 (AList.update key ev ingestEvents, g1))
      else ingestSources_newItems source timeMillis existing rest (ingestEvents, g))"

text \<open>The loop over the existing entities of the group.\<close>

fun ingestSources_deletedItems ::
  "int \<Rightarrow> (IngestibleItemIdentifier \<times> IngestibleItem) list
     \<Rightarrow> (IngestibleItemIdentifier \<times> Task) list
     \<Rightarrow> DeleteEvents \<times> nat \<Rightarrow> DeleteEvents \<times> nat" where
  "ingestSources_deletedItems timeMillis incoming [] st = st"
| "ingestSources_deletedItems timeMillis incoming ((key, existingTask) # rest) (deleteEvents, g) =
     (if map_of incoming key = None
      then (let (ev, g1) = createDeleteTaskEvent existingTask timeMillis g
            in ingestSources_deletedItems timeMillis incoming rest
                 (AList.update key ev deleteEvents, g1))
      else ingestSources_deletedItems timeMillis incoming rest (deleteEvents, g))"

text \<open>The loop over the items of a completely new source.\<close>

fun ingestSources_newSource ::
  "IngestibleSource \<Rightarrow> int \<Rightarrow> IngestibleItem list \<Rightarrow> IngestEvents \<times> nat \<Rightarrow> IngestEvents \<times> nat" where
  "ingestSources_newSource source timeMillis [] st = st"
| "ingestSources_newSource source timeMillis (item # rest) (ingestEvents, g) =
     (let (ingestEvent, g1) = createIngestTaskForSource source timeMillis item g
      in ingestSources_newSource source timeMillis rest
           (AList.update (IngestibleItem.identifier item) ingestEvent ingestEvents, g1))"

text \<open>The body of the loop over the sources, and the loop itself.\<close>

definition ingestSources_source ::
  "(string \<times> Task list) list \<Rightarrow> int \<Rightarrow> IngestibleSource
     \<Rightarrow> IngestEvents \<times> DeleteEvents \<times> nat
     \<Rightarrow> IngestError + (IngestEvents \<times> DeleteEvents \<times> nat)" where
  "ingestSources_source existingGroupedEntities timeMillis source st =
     (case st of (ingestEvents, deleteEvents, g) \<Rightarrow>
       (case map_of existingGroupedEntities (IngestibleSource.identifier source) of
          Some existingEntity \<Rightarrow>
            (case mapEntitiesByItemIdentifier existingEntity of
               Inl err \<Rightarrow> Inl err
             | Inr existingEntitiesByItemIdentifiers \<Rightarrow>
                 (case mapIngestibleItemsByItemIdentifier (items source) of
                    Inl err \<Rightarrow> Inl err
                  | Inr ingestibleItemsByItemIdentifiers \<Rightarrow>
                      (case ingestSources_newItems source timeMillis
                              existingEntitiesByItemIdentifiers
                              ingestibleItemsByItemIdentifiers (ingestEvents, g) of
                         (ingestEvents1, g1) \<Rightarrow>
                           (case ingestSources_deletedItems timeMillis
                                   ingestibleItemsByItemIdentifiers
                                   existingEntitiesByItemIdentifiers (deleteEvents, g1) of
                              (deleteEvents1, g2) \<Rightarrow> Inr (ingestEvents1, deleteEvents1, g2)))))
        | None \<Rightarrow>
            (case ingestSources_newSource source timeMillis (items source) (ingestEvents, g) of
               (ingestEvents1, g1) \<Rightarrow> Inr (ingestEvents1, deleteEvents, g1))))"

fun ingestSources_loop ::
  "(string \<times> Task list) list \<Rightarrow> int \<Rightarrow> IngestibleSource list
     \<Rightarrow> IngestEvents \<times> DeleteEvents \<times> nat
     \<Rightarrow> IngestError + (IngestEvents \<times> DeleteEvents \<times> nat)" where
  "ingestSources_loop grouped timeMillis [] st = Inr st"
| "ingestSources_loop grouped timeMillis (source # rest) st =
     (case ingestSources_source grouped timeMillis source st of
        Inl err \<Rightarrow> Inl err
      | Inr st1 \<Rightarrow> ingestSources_loop grouped timeMillis rest st1)"

text \<open>
  The second loop: it iterates over the entries of \<open>ingestEvents\<close> while deleting the
  entry it is visiting, which a JavaScript \<open>Map\<close> iterator permits; every entry present at
  the start is visited once, in order. The first argument is the entries still to visit.
\<close>

fun ingestSources_moves ::
  "IngestEvents
     \<Rightarrow> IngestEvents \<times> DeleteEvents \<times> TaskUpdateProvenanceEvent list \<times> nat
     \<Rightarrow> IngestEvents \<times> DeleteEvents \<times> TaskUpdateProvenanceEvent list \<times> nat" where
  "ingestSources_moves [] st = st"
| "ingestSources_moves ((ingestedEventItemIdentifier, ingestEvent) # rest)
       (ingestEvents, deleteEvents, updateProvenanceEvents, g) =
     (case map_of deleteEvents ingestedEventItemIdentifier of
        Some deleteEvent \<Rightarrow>
          (let (ev, g1) = createUpdateProvenanceEvent
                            (TaskUpdateDeletedEvent.entityID deleteEvent) ingestEvent g
           in ingestSources_moves rest
                (AList.delete ingestedEventItemIdentifier ingestEvents,
                 AList.delete ingestedEventItemIdentifier deleteEvents,
                 updateProvenanceEvents @ [ev], g1))
      | None \<Rightarrow>
          ingestSources_moves rest (ingestEvents, deleteEvents, updateProvenanceEvents, g))"

text \<open>
  The events of the first loop, as the pair of maps it leaves, and the whole function.
  The store is threaded through the one call that touches it; the generator's counter is
  an argument.
\<close>

definition existingTasks :: "OrbitStore \<Rightarrow> Task list" where
  "existingTasks store =
     tasksOf (fst (listEntities \<lparr>entityType = TaskType\<rparr> (database store)))"

definition ingestSources ::
  "IngestibleSource list \<Rightarrow> OrbitStore \<Rightarrow> IngestOptions \<Rightarrow> nat
     \<Rightarrow> (IngestError + Event list) \<times> OrbitStore" where
  "ingestSources sources store opts g =
     (case listEntities \<lparr>entityType = TaskType\<rparr> (database store) of
        (ents, db1) \<Rightarrow>
          (let store1 = store\<lparr>database := db1\<rparr>;
               existingGroupedEntities = groupEntitiesByProvenanceIdentifiers (tasksOf ents);
               timeMillis = ingestDateMillis opts
           in (case ingestSources_loop existingGroupedEntities timeMillis sources ([], [], g) of
                 Inl err \<Rightarrow> (Inl err, store1)
               | Inr (ingestEvents, deleteEvents, g1) \<Rightarrow>
                   (case ingestSources_moves ingestEvents (ingestEvents, deleteEvents, [], g1) of
                      (ingestEvents1, deleteEvents1, updateProvenanceEvents, g2) \<Rightarrow>
                        (Inr (map (TaskIngest \<circ> snd) ingestEvents1
                              @ map (TaskUpdateDeleted \<circ> snd) deleteEvents1
                              @ map TaskUpdateProvenance updateProvenanceEvents), store1)))))"

section \<open>Vocabulary of the statements\<close>

text \<open>
  A stored task belongs to the source with identifier \<open>i\<close> when it has a provenance and
  the provenance carries that identifier.
\<close>

definition hasProvenanceIdentifier :: "string \<Rightarrow> Task \<Rightarrow> bool" where
  "hasProvenanceIdentifier i t =
     (case Task.provenance t of None \<Rightarrow> False | Some p \<Rightarrow> TaskProvenance.identifier p = i)"

text \<open>
  The group of stored tasks that a source identifier matches. It is what
  \<open>groupEntitiesByProvenanceIdentifiers\<close> holds under the identifier when it is not empty.
\<close>

definition existingGroup :: "Task list \<Rightarrow> string \<Rightarrow> Task list" where
  "existingGroup ents i = filter (hasProvenanceIdentifier i) ents"

text \<open>
  The item identifier of a stored task as \<open>mapEntitiesByItemIdentifier\<close> accepts it: the
  metadata entry under the ingestion key, when it is present and not empty.
\<close>

definition itemIdentifierOf :: "Task \<Rightarrow> IngestibleItemIdentifier option" where
  "itemIdentifierOf t = truthyOpt (map_of (Task.metadata t) INGEST_ITEM_IDENTIFIER_KEY)"

text \<open>The item identifiers among the tasks of a group, and among the items of a source.\<close>

definition existingKeys :: "Task list \<Rightarrow> IngestibleItemIdentifier set" where
  "existingKeys grp = set (List.map_filter itemIdentifierOf grp)"

definition incomingKeys :: "IngestibleSource \<Rightarrow> IngestibleItemIdentifier set" where
  "incomingKeys source = IngestibleItem.identifier ` set (items source)"

text \<open>
  Where an entry of the ingest map comes from: \<open>createIngestTaskForSource\<close> made it for an
  item of one of the sources, under the item's identifier, with draws of the generator
  between the counters \<open>g\<close> and \<open>g'\<close>. Likewise an entry of the delete map was made by
  \<open>createDeleteTaskEvent\<close> for a task of the group of one of the sources, under the task's
  item identifier.
\<close>

definition ingestedBy ::
  "IngestibleSource list \<Rightarrow> int \<Rightarrow> nat \<Rightarrow> nat \<Rightarrow> IngestibleItemIdentifier \<times> TaskIngestEvent \<Rightarrow> bool" where
  "ingestedBy sources t g g' p =
     (\<exists>S\<in>set sources. \<exists>it\<in>set (items S). \<exists>n. g \<le> n \<and> n + 2 \<le> g' \<and>
        p = (IngestibleItem.identifier it, fst (createIngestTaskForSource S t it n)))"

definition deletedBy ::
  "Task list \<Rightarrow> IngestibleSource list \<Rightarrow> int \<Rightarrow> nat \<Rightarrow> nat
     \<Rightarrow> IngestibleItemIdentifier \<times> TaskUpdateDeletedEvent \<Rightarrow> bool" where
  "deletedBy ents sources t g g' p =
     (\<exists>S\<in>set sources. \<exists>task\<in>set (existingGroup ents (IngestibleSource.identifier S)).
        \<exists>n. g \<le> n \<and> n < g' \<and> itemIdentifierOf task = Some (fst p) \<and>
        snd p = fst (createDeleteTaskEvent task t n))"

text \<open>
  The generated ids of the entries of a map were drawn below the counter \<open>g\<close> and no two
  entries share one.
\<close>

definition ingestIdsBelow :: "nat \<Rightarrow> IngestEvents \<Rightarrow> bool" where
  "ingestIdsBelow g ing =
     ((\<forall>p\<in>set ing. \<exists>n. Suc n < g \<and> TaskIngestEvent.id (snd p) = uniqueID n
                          \<and> TaskIngestEvent.entityID (snd p) = uniqueID (Suc n))
      \<and> distinct (map (TaskIngestEvent.entityID \<circ> snd) ing)
      \<and> distinct (map (TaskIngestEvent.id \<circ> snd) ing))"

definition deleteIdsBelow :: "nat \<Rightarrow> DeleteEvents \<Rightarrow> bool" where
  "deleteIdsBelow g del =
     ((\<forall>p\<in>set del. \<exists>n. n < g \<and> TaskUpdateDeletedEvent.id (snd p) = uniqueID n)
      \<and> distinct (map (TaskUpdateDeletedEvent.id \<circ> snd) del))"

text \<open>
  The store with only those tasks that satisfy a predicate; entities of other types stay.
\<close>

definition keepTask :: "(Task \<Rightarrow> bool) \<Rightarrow> Entity \<Rightarrow> bool" where
  "keepTask P e = (case e of TaskEntity t \<Rightarrow> P t | AttachmentReferenceEntity a \<Rightarrow> True)"

definition keepTasks :: "(Task \<Rightarrow> bool) \<Rightarrow> OrbitStore \<Rightarrow> OrbitStore" where
  "keepTasks P store =
     store\<lparr>database := (database store)
       \<lparr>entities := filter (\<lambda>r. keepTask P (entity (snd r))) (entities (database store))\<rparr>\<rparr>"

text \<open>
  A stored task comes from one of the listed sources; an entity id is that of such a stored
  task; an event is an ingest event, or a deletion or provenance update for such an entity.
\<close>

definition fromListedSource :: "IngestibleSource list \<Rightarrow> Task \<Rightarrow> bool" where
  "fromListedSource sources t =
     list_ex (\<lambda>S. hasProvenanceIdentifier (IngestibleSource.identifier S) t) sources"

definition entityOfListedSource :: "IngestibleSource list \<Rightarrow> OrbitStore \<Rightarrow> TaskID \<Rightarrow> bool" where
  "entityOfListedSource sources store i =
     list_ex (\<lambda>t. Task.id t = i \<and> fromListedSource sources t) (existingTasks store)"

fun emittedForListedSource :: "IngestibleSource list \<Rightarrow> OrbitStore \<Rightarrow> Event \<Rightarrow> bool" where
  "emittedForListedSource sources store (TaskIngest e) = True"
| "emittedForListedSource sources store (TaskUpdateDeleted e) =
     entityOfListedSource sources store (TaskUpdateDeletedEvent.entityID e)"
| "emittedForListedSource sources store (TaskUpdateProvenance e) =
     entityOfListedSource sources store (TaskUpdateProvenanceEvent.entityID e)"

text \<open>The ingest events of a list of events, in order.\<close>

fun ingestEventsOf :: "Event list \<Rightarrow> TaskIngestEvent list" where
  "ingestEventsOf [] = []"
| "ingestEventsOf (TaskIngest e # evs) = e # ingestEventsOf evs"
| "ingestEventsOf (TaskUpdateDeleted e # evs) = ingestEventsOf evs"
| "ingestEventsOf (TaskUpdateProvenance e # evs) = ingestEventsOf evs"

section \<open>Sample data\<close>

text \<open>Tasks, stores, sources and options for the concrete scenarios.\<close>

definition sampleTask :: "TaskID \<Rightarrow> string \<Rightarrow> (string \<times> string) list \<Rightarrow> Task" where
  "sampleTask i src md =
     \<lparr>Task.id = i, spec = ''spec'',
      provenance = Some \<lparr>TaskProvenance.identifier = src, title = ''title'', url = None,
                         colorPaletteName = None\<rparr>,
      componentStates = [], isDeleted = False, metadata = md\<rparr>"

definition sampleStore :: "Task list \<Rightarrow> OrbitStore" where
  "sampleStore ts =
     \<lparr>database = \<lparr>entities = map (\<lambda>t. (Task.id t, \<lparr>entity = TaskEntity t, lastEventID = ''e'',
                                                   lastEventTimestampMillis = 0\<rparr>)) ts,
                  events = [], derived_taskComponents = []\<rparr>\<rparr>"

definition sampleSource :: "string \<Rightarrow> IngestibleItemIdentifier list \<Rightarrow> IngestibleSource" where
  "sampleSource src ks =
     \<lparr>IngestibleSource.identifier = src, title = ''title'', url = None, colorPaletteName = None,
      items = map (\<lambda>k. \<lparr>IngestibleItem.identifier = k, spec = ''spec''\<rparr>) ks\<rparr>"

definition sampleOptions :: IngestOptions where
  "sampleOptions = \<lparr>ingestDateMillis = 1000\<rparr>"

text \<open>Sample stores.\<close>

definition storeWithForeignTask :: OrbitStore where
  "storeWithForeignTask =
     sampleStore [sampleTask ''ta'' ''A'' [(INGEST_ITEM_IDENTIFIER_KEY, ''a'')],
                  sampleTask ''tc'' ''C'' [(INGEST_ITEM_IDENTIFIER_KEY, ''c'')]]"

definition storeWithBrokenTask :: OrbitStore where
  "storeWithBrokenTask =
     sampleStore [sampleTask ''tx'' ''A'' [(INGEST_ITEM_IDENTIFIER_KEY, ''x'')],
                  sampleTask ''ty'' ''B'' []]"

definition storeWithOneTask :: OrbitStore where
  "storeWithOneTask = sampleStore [sampleTask ''ta'' ''S'' [(INGEST_ITEM_IDENTIFIER_KEY, ''a'')]]"

text \<open>A source that presents two items with the same item identifier.\<close>

definition sourceWithDuplicateItems :: "string \<Rightarrow> IngestibleSource" where
  "sourceWithDuplicateItems src =
     \<lparr>IngestibleSource.identifier = src, title = ''title'', url = None, colorPaletteName = None,
      items = [\<lparr>IngestibleItem.identifier = ''x'', spec = ''first''\<rparr>,
               \<lparr>IngestibleItem.identifier = ''x'', spec = ''second''\<rparr>]\<rparr>"

text \<open>More sample stores.\<close>

definition storeWithMovedTask :: OrbitStore where
  "storeWithMovedTask = sampleStore [sampleTask ''tx'' ''A'' [(INGEST_ITEM_IDENTIFIER_KEY, ''x'')]]"






text \<open>A sample source with a url and an empty colour palette name.\<close>

definition sourceWithUrl :: IngestibleSource where
  "sourceWithUrl =
     \<lparr>IngestibleSource.identifier = ''N'', title = ''Notes'', url = Some ''http://example.com'',
      colorPaletteName = Some '''',
      items = [\<lparr>IngestibleItem.identifier = ''p'', spec = ''spec-p''\<rparr>,
               \<lparr>IngestibleItem.identifier = ''q'', spec = ''spec-q''\<rparr>]\<rparr>"

section \<open>The database backend and its derived rows\<close>

text \<open>
  Modelled from the spec: the database backend (\<open>modifyEntities\<close>, section 4.4) and the
  derived index projector (\<open>project\<close>, section 4.3) are not among the sources; only the
  backend's test is. An entity's projection is one row per component of a task that is not
  deleted, keyed by task id and component id; entities of other types and deleted tasks
  have none. \<open>componentStates\<close> is a JavaScript object, so a repeated key of the
  association list is shadowed.
\<close>

fun entityIDOf :: "Entity \<Rightarrow> ID" where
  "entityIDOf (TaskEntity t) = Task.id t"
| "entityIDOf (AttachmentReferenceEntity a) = a"

fun taskComponentRows :: "Entity \<Rightarrow> ((TaskID \<times> string) \<times> TaskComponentRow) list" where
  "taskComponentRows (TaskEntity t) =
     (if Task.isDeleted t then []
      else map (\<lambda>(c, s). ((Task.id t, c),
                  \<lparr>taskID = Task.id t, componentID = c,
                   dueTimestampMillis = ComponentSchedulingState.dueTimestampMillis s\<rparr>))
             (AList.clearjunk (componentStates t)))"
| "taskComponentRows (AttachmentReferenceEntity a) = []"

text \<open>
  The projector: an upsert for each row of \<open>next\<close> that \<open>previous\<close> does not have as it is (the
  component is absent from \<open>previous\<close>, or its row differs), a delete for each row key of
  \<open>previous\<close> that \<open>next\<close> no longer has (the component was removed, or \<open>next\<close> is deleted).
\<close>

record DerivedDelta =
  upserts :: "((TaskID \<times> string) \<times> TaskComponentRow) list"
  deletes :: "(TaskID \<times> string) list"

definition project :: "Entity option \<Rightarrow> Entity \<Rightarrow> DerivedDelta" where
  "project previous next =
     (let previousRows = (case previous of None \<Rightarrow> [] | Some p \<Rightarrow> taskComponentRows p);
          nextRows = taskComponentRows next
      in \<lparr>upserts = filter (\<lambda>r. r \<notin> set previousRows) nextRows,
          deletes = filter (\<lambda>k. k \<notin> fst ` set nextRows) (map fst previousRows)\<rparr>)"

definition applyDelta ::
  "DerivedDelta \<Rightarrow> ((TaskID \<times> string) \<times> TaskComponentRow) list
     \<Rightarrow> ((TaskID \<times> string) \<times> TaskComponentRow) list" where
  "applyDelta delta table =
     fold (\<lambda>(k, r). AList.update k r) (upserts delta) (fold AList.delete (deletes delta) table)"

text \<open>
  \<open>modifyEntities\<close>: read the records of the locked ids, apply the transform to that map,
  and commit every record it returns: the record replaces the one stored under the entity's
  id, and when the entity differs from the stored one the projector's delta is applied to
  the derived rows. The commit is atomic, so the model is the committed state; a transform
  that fails and a concurrent writer are outside it.
\<close>

definition getEntities :: "ID list \<Rightarrow> Database \<Rightarrow> (ID \<times> DatabaseBackendEntityRecord) list" where
  "getEntities ids db =
     List.map_filter (\<lambda>i. map_option (Pair i) (map_of (entities db) i)) ids"

definition commitRecord :: "Database \<Rightarrow> DatabaseBackendEntityRecord \<Rightarrow> Database" where
  "commitRecord db r =
     (let i = entityIDOf (entity r);
          previous = map_option entity (map_of (entities db) i)
      in db\<lparr>entities := AList.update i r (entities db),
            derived_taskComponents :=
              (if previous = Some (entity r) then derived_taskComponents db
               else applyDelta (project previous (entity r)) (derived_taskComponents db))\<rparr>)"

definition modifyEntities ::
  "ID list \<Rightarrow> ((ID \<times> DatabaseBackendEntityRecord) list \<Rightarrow> (ID \<times> DatabaseBackendEntityRecord) list)
     \<Rightarrow> Database \<Rightarrow> Database" where
  "modifyEntities idsToLock transform db =
     foldl commitRecord db (map snd (transform (getEntities idsToLock db)))"

definition emptyDatabase :: Database where
  "emptyDatabase = \<lparr>entities = [], events = [], derived_taskComponents = []\<rparr>"

text \<open>The databases that committed \<open>modifyEntities\<close> calls produce from the empty one.\<close>

inductive reachable :: "Database \<Rightarrow> bool" where
  reachable_empty: "reachable emptyDatabase"
| reachable_modify: "reachable db \<Longrightarrow> reachable (modifyEntities idsToLock transform db)"

text \<open>
  The invariant of the derived rows: for every task id and component id, the derived table
  holds under that key exactly the row that the projection of the stored entity gives, and
  no row where there is no such entity or component; no key occurs twice.
\<close>

definition expectedRow :: "Database \<Rightarrow> TaskID \<Rightarrow> string \<Rightarrow> TaskComponentRow option" where
  "expectedRow db t c =
     (case map_of (entities db) t of
        None \<Rightarrow> None
      | Some r \<Rightarrow>
          (case entity r of
             AttachmentReferenceEntity a \<Rightarrow> None
           | TaskEntity task \<Rightarrow>
               (if Task.isDeleted task then None
                else map_option
                       (\<lambda>s. \<lparr>taskID = t, componentID = c,
                             dueTimestampMillis = ComponentSchedulingState.dueTimestampMillis s\<rparr>)
                       (map_of (componentStates task) c))))"

definition derivedConsistent :: "Database \<Rightarrow> bool" where
  "derivedConsistent db =
     (distinct (map fst (derived_taskComponents db))
      \<and> (\<forall>t c. map_of (derived_taskComponents db) (t, c) = expectedRow db t c))"

definition keyedByEntityID :: "Database \<Rightarrow> bool" where
  "keyedByEntityID db = (\<forall>p\<in>set (entities db). entityIDOf (entity (snd p)) = fst p)"

text \<open>
  Modelled from the spec: \<open>createTestTask\<close> belongs to the sample-data package, which is
  not among the sources. The backend's test shows what it builds: a task with the two
  components "a" and "b", both due at the given time.
\<close>

definition createTestTask :: "TaskID \<Rightarrow> int \<Rightarrow> Task" where
  "createTestTask i due =
     \<lparr>Task.id = i, spec = ''test'', provenance = None,
      componentStates =
        [(''a'', \<lparr>intervalMillis = 1000, dueTimestampMillis = due, historyCount = 0\<rparr>),
         (''b'', \<lparr>intervalMillis = 1000, dueTimestampMillis = due, historyCount = 0\<rparr>)],
      isDeleted = False, metadata = []\<rparr>"

definition testTasks :: "DatabaseBackendEntityRecord list" where
  "testTasks =
     [\<lparr>entity = TaskEntity (createTestTask ''a'' 50), lastEventID = ''x'', lastEventTimestampMillis = 5\<rparr>,
      \<lparr>entity = TaskEntity (createTestTask ''b'' 100), lastEventID = ''y'', lastEventTimestampMillis = 4\<rparr>,
      \<lparr>entity = TaskEntity (createTestTask ''c'' 150), lastEventID = ''z'', lastEventTimestampMillis = 3\<rparr>]"

definition putEntities :: "Database \<Rightarrow> DatabaseBackendEntityRecord list \<Rightarrow> Database" where
  "putEntities backend ents =
     modifyEntities [] (\<lambda>entityMap. map (\<lambda>e. (entityIDOf (entity e), e)) ents) backend"

definition updatedRecord :: DatabaseBackendEntityRecord where
  "updatedRecord =
     \<lparr>entity = TaskEntity ((createTestTask ''a'' 300)
                  \<lparr>componentStates := AList.delete ''b'' (componentStates (createTestTask ''a'' 300))\<rparr>),
      lastEventID = ''y'', lastEventTimestampMillis = 20\<rparr>"

definition databaseAfterInsert :: Database where
  "databaseAfterInsert = putEntities emptyDatabase testTasks"

definition databaseAfterUpdate :: Database where
  "databaseAfterUpdate =
     modifyEntities [''a''] (\<lambda>entityMap. AList.update ''a'' updatedRecord entityMap) databaseAfterInsert"

definition derivedRowsOfTask :: "TaskID \<Rightarrow> Database \<Rightarrow> TaskComponentRow list" where
  "derivedRowsOfTask i db = filter (\<lambda>row. taskID row = i) (map snd (derived_taskComponents db))"

section \<open>Properties\<close>

lemma group_step_lookup:
  "map_of (groupEntitiesByProvenanceIdentifiers_step m t) i =
     (if hasProvenanceIdentifier i t
      then Some ((case map_of m i of None \<Rightarrow> [] | Some ts \<Rightarrow> ts) @ [t])
      else map_of m i)"
  by (auto simp: hasProvenanceIdentifier_def update_conv' split: option.splits)

lemma group_foldl_lookup:
  "map_of (foldl groupEntitiesByProvenanceIdentifiers_step m ents) i =
     (if existingGroup ents i = [] then map_of m i
      else Some ((case map_of m i of None \<Rightarrow> [] | Some ts \<Rightarrow> ts) @ existingGroup ents i))"
proof (induction ents arbitrary: m)
  case Nil
  then show ?case by (simp add: existingGroup_def)
next
  case (Cons t ents)
  show ?case
    unfolding foldl_Cons Cons.IH group_step_lookup
    by (simp add: existingGroup_def split: option.splits)
qed

lemma group_lookup:
  "map_of (groupEntitiesByProvenanceIdentifiers ents) i =
     (if existingGroup ents i = [] then None else Some (existingGroup ents i))"
  by (simp add: groupEntitiesByProvenanceIdentifiers_def group_foldl_lookup)

lemma set_update_subset: "set (AList.update k v al) \<subseteq> insert (k, v) (set al)"
  by (induct al) auto

lemma update_fresh: "k \<notin> fst ` set al \<Longrightarrow> AList.update k v al = al @ [(k, v)]"
  by (induct al) auto

lemma createIngestTaskForSource_eq:
  "createIngestTaskForSource source t item g =
     (\<lparr>TaskIngestEvent.id = uniqueID g, spec = IngestibleItem.spec item,
       entityID = uniqueID (Suc g), timestampMillis = t,
       metadata = [(INGEST_ITEM_IDENTIFIER_KEY, IngestibleItem.identifier item)],
       provenance = provenanceOfSource source\<rparr>, Suc (Suc g))"
  by (simp add: createIngestTaskForSource_def generateUniqueID_def)

lemma createDeleteTaskEvent_eq:
  "createDeleteTaskEvent task ts g =
     (\<lparr>TaskUpdateDeletedEvent.id = uniqueID g, entityID = Task.id task,
       timestampMillis = ts, isDeleted = True\<rparr>, Suc g)"
  by (simp add: createDeleteTaskEvent_def generateUniqueID_def)

lemma createUpdateProvenanceEvent_eq:
  "createUpdateProvenanceEvent i ie g =
     (\<lparr>TaskUpdateProvenanceEvent.id = uniqueID g, entityID = i,
       timestampMillis = TaskIngestEvent.timestampMillis ie,
       provenance = TaskIngestEvent.provenance ie\<rparr>, Suc g)"
  by (simp add: createUpdateProvenanceEvent_def generateUniqueID_def)

lemma uniqueID_inj: "uniqueID m = uniqueID n \<longleftrightarrow> m = n"
proof
  assume "uniqueID m = uniqueID n"
  then have "length (uniqueID m) = length (uniqueID n)" by simp
  then show "m = n" by (simp add: uniqueID_def)
qed simp

subsection \<open>The two keyed mappings\<close>

lemma mapEntities_loop_Inr:
  "mapEntitiesByItemIdentifier_loop ents m = Inr m' \<Longrightarrow>
     (\<forall>t\<in>set ents. itemIdentifierOf t \<noteq> None)
     \<and> fst ` set m' = fst ` set m \<union> set (List.map_filter itemIdentifierOf ents)
     \<and> (distinct (map fst m) \<longrightarrow> distinct (map fst m'))
     \<and> (\<forall>p\<in>set m'. p \<in> set m \<or> (snd p \<in> set ents \<and> itemIdentifierOf (snd p) = Some (fst p)))"
proof (induction ents arbitrary: m)
  case Nil
  then show ?case by (simp add: List.map_filter_simps)
next
  case (Cons t ents)
  from Cons.prems obtain k where k: "map_of (Task.metadata t) INGEST_ITEM_IDENTIFIER_KEY = Some k"
    "truthy k" and rest: "mapEntitiesByItemIdentifier_loop ents (AList.update k t m) = Inr m'"
    by (auto split: option.splits if_splits)
  have idt: "itemIdentifierOf t = Some k" using k by (simp add: itemIdentifierOf_def)
  note IH = Cons.IH[OF rest]
  have sub: "set (AList.update k t m) \<subseteq> insert (k, t) (set m)" by (rule set_update_subset)
  show ?case
  proof (intro conjI)
    show "\<forall>t\<in>set (t # ents). itemIdentifierOf t \<noteq> None" using IH idt by simp
    show "fst ` set m' = fst ` set m \<union> set (List.map_filter itemIdentifierOf (t # ents))"
      using IH idt by (auto simp: dom_update List.map_filter_simps)
    show "distinct (map fst m) \<longrightarrow> distinct (map fst m')"
      using IH by (simp add: distinct_update)
    show "\<forall>p\<in>set m'. p \<in> set m \<or> (snd p \<in> set (t # ents) \<and> itemIdentifierOf (snd p) = Some (fst p))"
    proof
      fix p assume "p \<in> set m'"
      with IH have "p \<in> set (AList.update k t m) \<or> (snd p \<in> set ents \<and> itemIdentifierOf (snd p) = Some (fst p))"
        by blast
      then show "p \<in> set m \<or> (snd p \<in> set (t # ents) \<and> itemIdentifierOf (snd p) = Some (fst p))"
        using sub idt by auto
    qed
  qed
qed

lemma mapEntities_loop_Inl:
  "mapEntitiesByItemIdentifier_loop ents m = Inl e \<Longrightarrow>
     e = MissingItemIdentifierError \<and> (\<exists>t\<in>set ents. itemIdentifierOf t = None)"
  by (induction ents arbitrary: m)
     (auto simp: itemIdentifierOf_def split: option.splits if_splits)

lemma mapEntities_loop_missing:
  "\<exists>t\<in>set ents. itemIdentifierOf t = None \<Longrightarrow>
     mapEntitiesByItemIdentifier_loop ents m = Inl MissingItemIdentifierError"
proof -
  assume a: "\<exists>t\<in>set ents. itemIdentifierOf t = None"
  show ?thesis
  proof (cases "mapEntitiesByItemIdentifier_loop ents m")
    case (Inl e)
    then show ?thesis using mapEntities_loop_Inl by blast
  next
    case (Inr m')
    then show ?thesis using mapEntities_loop_Inr a by blast
  qed
qed

lemma mapItems_loop_ok:
  "distinct (map IngestibleItem.identifier its) \<Longrightarrow>
   IngestibleItem.identifier ` set its \<inter> fst ` set m = {} \<Longrightarrow>
   mapIngestibleItemsByItemIdentifier_loop its m =
     Inr (m @ map (\<lambda>i. (IngestibleItem.identifier i, i)) its)"
proof (induction its arbitrary: m)
  case Nil
  then show ?case by simp
next
  case (Cons i its)
  have fresh: "IngestibleItem.identifier i \<notin> fst ` set m" using Cons.prems by auto
  then have none: "map_of m (IngestibleItem.identifier i) = None"
    by (simp add: map_of_eq_None_iff)
  have upd: "AList.update (IngestibleItem.identifier i) i m = m @ [(IngestibleItem.identifier i, i)]"
    using fresh by (rule update_fresh)
  have "mapIngestibleItemsByItemIdentifier_loop its (m @ [(IngestibleItem.identifier i, i)]) =
          Inr ((m @ [(IngestibleItem.identifier i, i)]) @ map (\<lambda>i. (IngestibleItem.identifier i, i)) its)"
    using Cons.prems by (intro Cons.IH) auto
  then show ?case using none upd by simp
qed

lemma mapItems_loop_dup:
  "\<not> (distinct (map IngestibleItem.identifier its) \<and>
       IngestibleItem.identifier ` set its \<inter> fst ` set m = {}) \<Longrightarrow>
   \<exists>ys k zs. map IngestibleItem.identifier its = ys @ k # zs
      \<and> distinct ys \<and> set ys \<inter> fst ` set m = {} \<and> k \<in> set ys \<union> fst ` set m
      \<and> mapIngestibleItemsByItemIdentifier_loop its m = Inl (DuplicateItemIdentifierError k)"
proof (induction its arbitrary: m)
  case Nil
  then show ?case by simp
next
  case (Cons i its)
  let ?k = "IngestibleItem.identifier i"
  show ?case
  proof (cases "?k \<in> fst ` set m")
    case True
    then have "map_of m ?k \<noteq> None" by (simp add: map_of_eq_None_iff)
    then have "mapIngestibleItemsByItemIdentifier_loop (i # its) m = Inl (DuplicateItemIdentifierError ?k)"
      by auto
    moreover have "map IngestibleItem.identifier (i # its) = [] @ ?k # map IngestibleItem.identifier its"
      by simp
    ultimately show ?thesis using True by (metis distinct.simps(1) empty_set inf_bot_left UnI2)
  next
    case False
    then have none: "map_of m ?k = None" by (simp add: map_of_eq_None_iff)
    have upd: "AList.update ?k i m = m @ [(?k, i)]" using False by (rule update_fresh)
    have "\<not> (distinct (map IngestibleItem.identifier its) \<and>
             IngestibleItem.identifier ` set its \<inter> fst ` set (m @ [(?k, i)]) = {})"
      using Cons.prems False by auto
    from Cons.IH[OF this] obtain ys k zs where
      h: "map IngestibleItem.identifier its = ys @ k # zs" "distinct ys"
         "set ys \<inter> fst ` set (m @ [(?k, i)]) = {}" "k \<in> set ys \<union> fst ` set (m @ [(?k, i)])"
         "mapIngestibleItemsByItemIdentifier_loop its (m @ [(?k, i)]) = Inl (DuplicateItemIdentifierError k)"
      by blast
    have "map IngestibleItem.identifier (i # its) = (?k # ys) @ k # zs" using h(1) by simp
    moreover have "distinct (?k # ys)" using h(2,3) by auto
    moreover have "set (?k # ys) \<inter> fst ` set m = {}" using h(3) False by auto
    moreover have "k \<in> set (?k # ys) \<union> fst ` set m" using h(4) by auto
    moreover have "mapIngestibleItemsByItemIdentifier_loop (i # its) m = Inl (DuplicateItemIdentifierError k)"
      using none upd h(5) by simp
    ultimately show ?thesis by blast
  qed
qed

lemma mapItems_ok:
  "distinct (map IngestibleItem.identifier its) \<Longrightarrow>
   mapIngestibleItemsByItemIdentifier its = Inr (map (\<lambda>i. (IngestibleItem.identifier i, i)) its)"
  using mapItems_loop_ok[of its "[]"] by (simp add: mapIngestibleItemsByItemIdentifier_def)

lemma mapItems_dup:
  "\<not> distinct (map IngestibleItem.identifier its) \<Longrightarrow>
   \<exists>ys k zs. map IngestibleItem.identifier its = ys @ k # zs \<and> distinct ys \<and> k \<in> set ys
      \<and> mapIngestibleItemsByItemIdentifier its = Inl (DuplicateItemIdentifierError k)"
  using mapItems_loop_dup[of its "[]"] by (simp add: mapIngestibleItemsByItemIdentifier_def)

lemma mapItems_Inr:
  "mapIngestibleItemsByItemIdentifier its = Inr inc \<Longrightarrow>
   distinct (map IngestibleItem.identifier its) \<and> inc = map (\<lambda>i. (IngestibleItem.identifier i, i)) its"
proof (cases "distinct (map IngestibleItem.identifier its)")
  case True
  assume "mapIngestibleItemsByItemIdentifier its = Inr inc"
  then show ?thesis using mapItems_ok[OF True] True by simp
next
  case False
  assume a: "mapIngestibleItemsByItemIdentifier its = Inr inc"
  from mapItems_dup[OF False] a show ?thesis by auto
qed

subsection \<open>The inner loops\<close>

lemma newSource_props:
  "ingestSources_newSource S t its (ing, g) = (ing', g') \<Longrightarrow>
     g' = g + 2 * length its
     \<and> fst ` set ing' = fst ` set ing \<union> IngestibleItem.identifier ` set its
     \<and> (distinct (map fst ing) \<longrightarrow> distinct (map fst ing'))
     \<and> (\<forall>p\<in>set ing'. p \<in> set ing \<or>
           (\<exists>it\<in>set its. \<exists>n. g \<le> n \<and> n + 2 \<le> g' \<and>
              p = (IngestibleItem.identifier it, fst (createIngestTaskForSource S t it n))))"
proof (induction its arbitrary: ing g)
  case Nil
  then show ?case by simp
next
  case (Cons i its)
  let ?k = "IngestibleItem.identifier i"
  let ?ev = "fst (createIngestTaskForSource S t i g)"
  from Cons.prems have rest:
    "ingestSources_newSource S t its (AList.update ?k ?ev ing, Suc (Suc g)) = (ing', g')"
    by (simp add: createIngestTaskForSource_eq)
  note IH = Cons.IH[OF rest]
  have sub: "set (AList.update ?k ?ev ing) \<subseteq> insert (?k, ?ev) (set ing)"
    by (rule set_update_subset)
  show ?case
  proof (intro conjI)
    show "g' = g + 2 * length (i # its)" using IH by simp
    show "fst ` set ing' = fst ` set ing \<union> IngestibleItem.identifier ` set (i # its)"
      using IH by (auto simp: dom_update)
    show "distinct (map fst ing) \<longrightarrow> distinct (map fst ing')"
      using IH by (simp add: distinct_update)
    show "\<forall>p\<in>set ing'. p \<in> set ing \<or>
           (\<exists>it\<in>set (i # its). \<exists>n. g \<le> n \<and> n + 2 \<le> g' \<and>
              p = (IngestibleItem.identifier it, fst (createIngestTaskForSource S t it n)))"
    proof
      fix p assume "p \<in> set ing'"
      with IH consider "p \<in> set (AList.update ?k ?ev ing)"
        | "\<exists>it\<in>set its. \<exists>n. Suc (Suc g) \<le> n \<and> n + 2 \<le> g' \<and>
              p = (IngestibleItem.identifier it, fst (createIngestTaskForSource S t it n))"
        by blast
      then show "p \<in> set ing \<or>
           (\<exists>it\<in>set (i # its). \<exists>n. g \<le> n \<and> n + 2 \<le> g' \<and>
              p = (IngestibleItem.identifier it, fst (createIngestTaskForSource S t it n)))"
      proof cases
        case 1
        with sub have "p = (?k, ?ev) \<or> p \<in> set ing" by auto
        moreover have "g + 2 \<le> g'" using IH by simp
        ultimately show ?thesis by auto
      next
        case 2
        then obtain it n where "it \<in> set its" "Suc (Suc g) \<le> n" "n + 2 \<le> g'"
          "p = (IngestibleItem.identifier it, fst (createIngestTaskForSource S t it n))" by blast
        then have "it \<in> set (i # its) \<and> g \<le> n \<and> n + 2 \<le> g' \<and>
          p = (IngestibleItem.identifier it, fst (createIngestTaskForSource S t it n))" by simp
        then show ?thesis by blast
      qed
    qed
  qed
qed

lemma newItems_props:
  "ingestSources_newItems S t ex inc (ing, g) = (ing', g') \<Longrightarrow>
     g \<le> g'
     \<and> fst ` set ing' = fst ` set ing \<union> (fst ` set inc - fst ` set ex)
     \<and> (distinct (map fst ing) \<longrightarrow> distinct (map fst ing'))
     \<and> (\<forall>p\<in>set ing'. p \<in> set ing \<or>
           (\<exists>q\<in>set inc. \<exists>n. g \<le> n \<and> n + 2 \<le> g' \<and>
              p = (fst q, fst (createIngestTaskForSource S t (snd q) n))))"
proof (induction inc arbitrary: ing g)
  case Nil
  then show ?case by simp
next
  case (Cons q inc)
  obtain k i where q: "q = (k, i)" by (cases q)
  show ?case
  proof (cases "map_of ex k = None")
    case False
    then have kin: "k \<in> fst ` set ex" by (simp add: map_of_eq_None_iff)
    from Cons.prems False q have rest: "ingestSources_newItems S t ex inc (ing, g) = (ing', g')"
      by simp
    note IH = Cons.IH[OF rest]
    show ?thesis
    proof (intro conjI)
      show "g \<le> g'" using IH by simp
      show "fst ` set ing' = fst ` set ing \<union> (fst ` set (q # inc) - fst ` set ex)"
        using IH kin q by auto
      show "distinct (map fst ing) \<longrightarrow> distinct (map fst ing')" using IH by simp
      show "\<forall>p\<in>set ing'. p \<in> set ing \<or>
           (\<exists>q\<in>set (q # inc). \<exists>n. g \<le> n \<and> n + 2 \<le> g' \<and>
              p = (fst q, fst (createIngestTaskForSource S t (snd q) n)))"
        using IH by auto
    qed
  next
    case True
    then have knot: "k \<notin> fst ` set ex" by (simp add: map_of_eq_None_iff)
    let ?ev = "fst (createIngestTaskForSource S t i g)"
    from Cons.prems True q have rest:
      "ingestSources_newItems S t ex inc (AList.update k ?ev ing, Suc (Suc g)) = (ing', g')"
      by (simp add: createIngestTaskForSource_eq)
    note IH = Cons.IH[OF rest]
    have sub: "set (AList.update k ?ev ing) \<subseteq> insert (k, ?ev) (set ing)"
      by (rule set_update_subset)
    show ?thesis
    proof (intro conjI)
      show "g \<le> g'" using IH by simp
      show "fst ` set ing' = fst ` set ing \<union> (fst ` set (q # inc) - fst ` set ex)"
        using IH knot q by (auto simp: dom_update)
      show "distinct (map fst ing) \<longrightarrow> distinct (map fst ing')"
        using IH by (simp add: distinct_update)
      show "\<forall>p\<in>set ing'. p \<in> set ing \<or>
           (\<exists>q\<in>set (q # inc). \<exists>n. g \<le> n \<and> n + 2 \<le> g' \<and>
              p = (fst q, fst (createIngestTaskForSource S t (snd q) n)))"
      proof
        fix p assume "p \<in> set ing'"
        with IH consider "p \<in> set (AList.update k ?ev ing)"
          | "\<exists>q\<in>set inc. \<exists>n. Suc (Suc g) \<le> n \<and> n + 2 \<le> g' \<and>
                p = (fst q, fst (createIngestTaskForSource S t (snd q) n))"
          by blast
        then show "p \<in> set ing \<or>
           (\<exists>q\<in>set (q # inc). \<exists>n. g \<le> n \<and> n + 2 \<le> g' \<and>
              p = (fst q, fst (createIngestTaskForSource S t (snd q) n)))"
        proof cases
          case 1
          with sub have "p = (k, ?ev) \<or> p \<in> set ing" by auto
          moreover have "g + 2 \<le> g'" using IH by simp
          ultimately show ?thesis using q by auto
        next
          case 2
          then obtain r n where "r \<in> set inc" "Suc (Suc g) \<le> n" "n + 2 \<le> g'"
            "p = (fst r, fst (createIngestTaskForSource S t (snd r) n))" by blast
          then have "r \<in> set (q # inc) \<and> g \<le> n \<and> n + 2 \<le> g' \<and>
            p = (fst r, fst (createIngestTaskForSource S t (snd r) n))" by simp
          then show ?thesis by blast
        qed
      qed
    qed
  qed
qed

lemma deletedItems_props:
  "ingestSources_deletedItems t inc ex (del, g) = (del', g') \<Longrightarrow>
     g \<le> g'
     \<and> fst ` set del' = fst ` set del \<union> (fst ` set ex - fst ` set inc)
     \<and> (distinct (map fst del) \<longrightarrow> distinct (map fst del'))
     \<and> (\<forall>p\<in>set del'. p \<in> set del \<or>
           (\<exists>q\<in>set ex. \<exists>n. g \<le> n \<and> n < g' \<and>
              p = (fst q, fst (createDeleteTaskEvent (snd q) t n))))"
proof (induction ex arbitrary: del g)
  case Nil
  then show ?case by simp
next
  case (Cons q ex)
  obtain k task where q: "q = (k, task)" by (cases q)
  show ?case
  proof (cases "map_of inc k = None")
    case False
    then have kin: "k \<in> fst ` set inc" by (simp add: map_of_eq_None_iff)
    from Cons.prems False q have rest: "ingestSources_deletedItems t inc ex (del, g) = (del', g')"
      by simp
    note IH = Cons.IH[OF rest]
    show ?thesis
    proof (intro conjI)
      show "g \<le> g'" using IH by simp
      show "fst ` set del' = fst ` set del \<union> (fst ` set (q # ex) - fst ` set inc)"
        using IH kin q by auto
      show "distinct (map fst del) \<longrightarrow> distinct (map fst del')" using IH by simp
      show "\<forall>p\<in>set del'. p \<in> set del \<or>
           (\<exists>q\<in>set (q # ex). \<exists>n. g \<le> n \<and> n < g' \<and>
              p = (fst q, fst (createDeleteTaskEvent (snd q) t n)))"
        using IH by auto
    qed
  next
    case True
    then have knot: "k \<notin> fst ` set inc" by (simp add: map_of_eq_None_iff)
    let ?ev = "fst (createDeleteTaskEvent task t g)"
    from Cons.prems True q have rest:
      "ingestSources_deletedItems t inc ex (AList.update k ?ev del, Suc g) = (del', g')"
      by (simp add: createDeleteTaskEvent_eq)
    note IH = Cons.IH[OF rest]
    have sub: "set (AList.update k ?ev del) \<subseteq> insert (k, ?ev) (set del)"
      by (rule set_update_subset)
    show ?thesis
    proof (intro conjI)
      show "g \<le> g'" using IH by simp
      show "fst ` set del' = fst ` set del \<union> (fst ` set (q # ex) - fst ` set inc)"
        using IH knot q by (auto simp: dom_update)
      show "distinct (map fst del) \<longrightarrow> distinct (map fst del')"
        using IH by (simp add: distinct_update)
      show "\<forall>p\<in>set del'. p \<in> set del \<or>
           (\<exists>q\<in>set (q # ex). \<exists>n. g \<le> n \<and> n < g' \<and>
              p = (fst q, fst (createDeleteTaskEvent (snd q) t n)))"
      proof
        fix p assume "p \<in> set del'"
        with IH consider "p \<in> set (AList.update k ?ev del)"
          | "\<exists>q\<in>set ex. \<exists>n. Suc g \<le> n \<and> n < g' \<and>
                p = (fst q, fst (createDeleteTaskEvent (snd q) t n))"
          by blast
        then show "p \<in> set del \<or>
           (\<exists>q\<in>set (q # ex). \<exists>n. g \<le> n \<and> n < g' \<and>
              p = (fst q, fst (createDeleteTaskEvent (snd q) t n)))"
        proof cases
          case 1
          with sub have "p = (k, ?ev) \<or> p \<in> set del" by auto
          moreover have "g < g'" using IH by simp
          ultimately show ?thesis using q by auto
        next
          case 2
          then obtain r n where "r \<in> set ex" "Suc g \<le> n" "n < g'"
            "p = (fst r, fst (createDeleteTaskEvent (snd r) t n))" by blast
          then have "r \<in> set (q # ex) \<and> g \<le> n \<and> n < g' \<and>
            p = (fst r, fst (createDeleteTaskEvent (snd r) t n))" by simp
          then show ?thesis by blast
        qed
      qed
    qed
  qed
qed

subsection \<open>One source\<close>

lemma source_cong:
  "map_of G1 (IngestibleSource.identifier S) = map_of G2 (IngestibleSource.identifier S) \<Longrightarrow>
   ingestSources_source G1 t S st = ingestSources_source G2 t S st"
  by (simp add: ingestSources_source_def)

lemma source_new:
  assumes "map_of G (IngestibleSource.identifier S) = None"
  shows "ingestSources_source G t S (ing, del, g) =
           Inr (fst (ingestSources_newSource S t (items S) (ing, g)), del,
                snd (ingestSources_newSource S t (items S) (ing, g)))"
  using assms by (simp add: ingestSources_source_def split: prod.splits)

lemma source_missing:
  assumes "map_of G (IngestibleSource.identifier S) = Some grp"
    and "\<exists>t\<in>set grp. itemIdentifierOf t = None"
  shows "ingestSources_source G t S st = Inl MissingItemIdentifierError"
  using assms mapEntities_loop_missing[of grp "[]"]
  by (simp add: ingestSources_source_def mapEntitiesByItemIdentifier_def split: prod.splits)

lemma mapEntities_total:
  assumes "\<forall>t\<in>set grp. itemIdentifierOf t \<noteq> None"
  shows "\<exists>ex. mapEntitiesByItemIdentifier grp = Inr ex"
proof (cases "mapEntitiesByItemIdentifier grp")
  case (Inl e)
  then show ?thesis
    using mapEntities_loop_Inl[of grp "[]" e] assms by (auto simp: mapEntitiesByItemIdentifier_def)
next
  case (Inr ex)
  then show ?thesis by blast
qed

lemma source_dup:
  assumes "map_of G (IngestibleSource.identifier S) = Some grp"
    and "\<forall>t\<in>set grp. itemIdentifierOf t \<noteq> None"
    and "\<not> distinct (map IngestibleItem.identifier (items S))"
  shows "\<exists>ys k zs. map IngestibleItem.identifier (items S) = ys @ k # zs \<and> distinct ys \<and> k \<in> set ys
           \<and> ingestSources_source G t S st = Inl (DuplicateItemIdentifierError k)"
proof -
  from mapEntities_total[OF assms(2)] obtain ex where ex: "mapEntitiesByItemIdentifier grp = Inr ex"
    by blast
  from mapItems_dup[OF assms(3)] obtain ys k zs where
    h: "map IngestibleItem.identifier (items S) = ys @ k # zs" "distinct ys" "k \<in> set ys"
       "mapIngestibleItemsByItemIdentifier (items S) = Inl (DuplicateItemIdentifierError k)"
    by blast
  have "ingestSources_source G t S st = Inl (DuplicateItemIdentifierError k)"
    using assms(1) ex h(4) by (simp add: ingestSources_source_def split: prod.splits)
  with h show ?thesis by blast
qed

lemma source_existing_Inr:
  assumes grp: "map_of G (IngestibleSource.identifier S) = Some grp"
    and run: "ingestSources_source G t S (ing, del, g) = Inr (ing', del', g')"
  shows "g \<le> g'
     \<and> (\<forall>t\<in>set grp. itemIdentifierOf t \<noteq> None)
     \<and> distinct (map IngestibleItem.identifier (items S))
     \<and> fst ` set ing' = fst ` set ing \<union> (incomingKeys S - existingKeys grp)
     \<and> fst ` set del' = fst ` set del \<union> (existingKeys grp - incomingKeys S)
     \<and> (distinct (map fst ing) \<longrightarrow> distinct (map fst ing'))
     \<and> (distinct (map fst del) \<longrightarrow> distinct (map fst del'))
     \<and> (\<forall>p\<in>set ing'. p \<in> set ing \<or>
           (\<exists>it\<in>set (items S). \<exists>n. g \<le> n \<and> n + 2 \<le> g' \<and>
              p = (IngestibleItem.identifier it, fst (createIngestTaskForSource S t it n))))
     \<and> (\<forall>p\<in>set del'. p \<in> set del \<or>
           (\<exists>task\<in>set grp. \<exists>n. g \<le> n \<and> n < g' \<and> itemIdentifierOf task = Some (fst p) \<and>
              snd p = fst (createDeleteTaskEvent task t n)))"
proof -
  from run grp obtain ex inc g1 where
    ex: "mapEntitiesByItemIdentifier grp = Inr ex"
    and inc: "mapIngestibleItemsByItemIdentifier (items S) = Inr inc"
    and ni: "ingestSources_newItems S t ex inc (ing, g) = (ing', g1)"
    and di: "ingestSources_deletedItems t inc ex (del, g1) = (del', g')"
    by (auto simp: ingestSources_source_def split: sum.splits prod.splits)
  from mapEntities_loop_Inr[of grp "[]" ex] ex have E:
    "\<forall>t\<in>set grp. itemIdentifierOf t \<noteq> None"
    "fst ` set ex = existingKeys grp"
    "\<forall>p\<in>set ex. snd p \<in> set grp \<and> itemIdentifierOf (snd p) = Some (fst p)"
    by (auto simp: mapEntitiesByItemIdentifier_def existingKeys_def)
  from mapItems_Inr[OF inc] have I:
    "distinct (map IngestibleItem.identifier (items S))"
    "inc = map (\<lambda>i. (IngestibleItem.identifier i, i)) (items S)" by auto
  have Ik: "fst ` set inc = incomingKeys S" using I(2) by (force simp: incomingKeys_def)
  note N = newItems_props[OF ni]
  note D = deletedItems_props[OF di]
  show ?thesis
  proof (intro conjI)
    show "g \<le> g'" using N D by linarith
    show "\<forall>t\<in>set grp. itemIdentifierOf t \<noteq> None" by (rule E(1))
    show "distinct (map IngestibleItem.identifier (items S))" by (rule I(1))
    show "fst ` set ing' = fst ` set ing \<union> (incomingKeys S - existingKeys grp)"
      using N E(2) Ik by simp
    show "fst ` set del' = fst ` set del \<union> (existingKeys grp - incomingKeys S)"
      using D E(2) Ik by simp
    show "distinct (map fst ing) \<longrightarrow> distinct (map fst ing')" using N by simp
    show "distinct (map fst del) \<longrightarrow> distinct (map fst del')" using D by simp
    show "\<forall>p\<in>set ing'. p \<in> set ing \<or>
           (\<exists>it\<in>set (items S). \<exists>n. g \<le> n \<and> n + 2 \<le> g' \<and>
              p = (IngestibleItem.identifier it, fst (createIngestTaskForSource S t it n)))"
    proof
      fix p assume "p \<in> set ing'"
      with N consider "p \<in> set ing"
        | "\<exists>q\<in>set inc. \<exists>n. g \<le> n \<and> n + 2 \<le> g1 \<and>
              p = (fst q, fst (createIngestTaskForSource S t (snd q) n))" by blast
      then show "p \<in> set ing \<or>
           (\<exists>it\<in>set (items S). \<exists>n. g \<le> n \<and> n + 2 \<le> g' \<and>
              p = (IngestibleItem.identifier it, fst (createIngestTaskForSource S t it n)))"
      proof cases
        case 1
        then show ?thesis by simp
      next
        case 2
        then obtain q n where q: "q \<in> set inc" "g \<le> n" "n + 2 \<le> g1"
          "p = (fst q, fst (createIngestTaskForSource S t (snd q) n))" by blast
        from q(1) I(2) obtain it where it: "it \<in> set (items S)" "q = (IngestibleItem.identifier it, it)"
          by auto
        have "n + 2 \<le> g'" using q(3) D by linarith
        with it q show ?thesis by auto
      qed
    qed
    show "\<forall>p\<in>set del'. p \<in> set del \<or>
           (\<exists>task\<in>set grp. \<exists>n. g \<le> n \<and> n < g' \<and> itemIdentifierOf task = Some (fst p) \<and>
              snd p = fst (createDeleteTaskEvent task t n))"
    proof
      fix p assume "p \<in> set del'"
      with D consider "p \<in> set del"
        | "\<exists>q\<in>set ex. \<exists>n. g1 \<le> n \<and> n < g' \<and>
              p = (fst q, fst (createDeleteTaskEvent (snd q) t n))" by blast
      then show "p \<in> set del \<or>
           (\<exists>task\<in>set grp. \<exists>n. g \<le> n \<and> n < g' \<and> itemIdentifierOf task = Some (fst p) \<and>
              snd p = fst (createDeleteTaskEvent task t n))"
      proof cases
        case 1
        then show ?thesis by simp
      next
        case 2
        then obtain q n where q: "q \<in> set ex" "g1 \<le> n" "n < g'"
          "p = (fst q, fst (createDeleteTaskEvent (snd q) t n))" by blast
        from q(1) E(3) have "snd q \<in> set grp" "itemIdentifierOf (snd q) = Some (fst q)" by auto
        moreover have "g \<le> n" using q(2) N by linarith
        ultimately show ?thesis using q by auto
      qed
    qed
  qed
qed

lemma existingKeys_Nil: "existingKeys [] = {}"
  by (simp add: existingKeys_def List.map_filter_simps)

text \<open>Both branches of the loop body, for the grouping of a list of entities.\<close>

lemma source_Inr:
  assumes run: "ingestSources_source (groupEntitiesByProvenanceIdentifiers ents) t S (ing, del, g)
                  = Inr (ing', del', g')"
  shows "g \<le> g'
     \<and> fst ` set ing' = fst ` set ing
          \<union> (incomingKeys S - existingKeys (existingGroup ents (IngestibleSource.identifier S)))
     \<and> fst ` set del' = fst ` set del
          \<union> (existingKeys (existingGroup ents (IngestibleSource.identifier S)) - incomingKeys S)
     \<and> (distinct (map fst ing) \<longrightarrow> distinct (map fst ing'))
     \<and> (distinct (map fst del) \<longrightarrow> distinct (map fst del'))
     \<and> (\<forall>p\<in>set ing'. p \<in> set ing \<or>
           (\<exists>it\<in>set (items S). \<exists>n. g \<le> n \<and> n + 2 \<le> g' \<and>
              p = (IngestibleItem.identifier it, fst (createIngestTaskForSource S t it n))))
     \<and> (\<forall>p\<in>set del'. p \<in> set del \<or>
           (\<exists>task\<in>set (existingGroup ents (IngestibleSource.identifier S)).
              \<exists>n. g \<le> n \<and> n < g' \<and> itemIdentifierOf task = Some (fst p) \<and>
              snd p = fst (createDeleteTaskEvent task t n)))"
proof (cases "existingGroup ents (IngestibleSource.identifier S) = []")
  case True
  then have none: "map_of (groupEntitiesByProvenanceIdentifiers ents) (IngestibleSource.identifier S) = None"
    by (simp add: group_lookup)
  from run source_new[OF none] have
    r: "ingestSources_newSource S t (items S) (ing, g) = (ing', g')" and d: "del' = del"
    by (auto simp: prod_eq_iff)
  note N = newSource_props[OF r]
  have a1: "g \<le> g'" using N by simp
  have a2: "fst ` set ing' = fst ` set ing \<union> (incomingKeys S - existingKeys [])"
    using N by (simp add: existingKeys_Nil incomingKeys_def)
  have a3: "fst ` set del = fst ` set del \<union> (existingKeys [] - incomingKeys S)"
    by (simp add: existingKeys_Nil)
  have a4: "distinct (map fst ing) \<longrightarrow> distinct (map fst ing')" using N by simp
  have a5: "\<forall>p\<in>set ing'. p \<in> set ing \<or>
           (\<exists>it\<in>set (items S). \<exists>n. g \<le> n \<and> n + 2 \<le> g' \<and>
              p = (IngestibleItem.identifier it, fst (createIngestTaskForSource S t it n)))"
    using N by blast
  show ?thesis unfolding True d
    apply (intro conjI)
          apply (rule a1)
         apply (rule a2)
        apply (rule a3)
       apply (rule a4)
      apply simp
     apply (rule a5)
    apply simp
    done
next
  case False
  then have some: "map_of (groupEntitiesByProvenanceIdentifiers ents) (IngestibleSource.identifier S)
     = Some (existingGroup ents (IngestibleSource.identifier S))"
    by (simp add: group_lookup)
  from source_existing_Inr[OF some run] show ?thesis
    by (elim conjE, intro conjI) assumption+
qed

subsection \<open>The loop over the sources\<close>

lemma ingestedBy_mono:
  "ingestedBy srcs t g1 g2 p \<Longrightarrow> set srcs \<subseteq> set srcs' \<Longrightarrow> g1' \<le> g1 \<Longrightarrow> g2 \<le> g2' \<Longrightarrow>
   ingestedBy srcs' t g1' g2' p"
  unfolding ingestedBy_def by (meson le_trans subsetD)

lemma deletedBy_mono:
  "deletedBy ents srcs t g1 g2 p \<Longrightarrow> set srcs \<subseteq> set srcs' \<Longrightarrow> g1' \<le> g1 \<Longrightarrow> g2 \<le> g2' \<Longrightarrow>
   deletedBy ents srcs' t g1' g2' p"
  unfolding deletedBy_def by (meson le_trans less_le_trans subsetD)

lemma loop_append:
  "ingestSources_loop G t (xs @ ys) st =
     (case ingestSources_loop G t xs st of Inl e \<Rightarrow> Inl e | Inr st1 \<Rightarrow> ingestSources_loop G t ys st1)"
  by (induction xs arbitrary: st) (auto split: sum.splits)

lemma loop_cong:
  "\<forall>S\<in>set sources. map_of G1 (IngestibleSource.identifier S) = map_of G2 (IngestibleSource.identifier S) \<Longrightarrow>
   ingestSources_loop G1 t sources st = ingestSources_loop G2 t sources st"
proof (induction sources arbitrary: st)
  case Nil
  then show ?case by simp
next
  case (Cons S sources)
  have "ingestSources_source G1 t S st = ingestSources_source G2 t S st"
    using Cons.prems by (intro source_cong) simp
  moreover have "\<And>st1. ingestSources_loop G1 t sources st1 = ingestSources_loop G2 t sources st1"
    using Cons.prems by (intro Cons.IH) simp
  ultimately show ?case by (simp split: sum.splits)
qed

lemma loop_Inr:
  "ingestSources_loop (groupEntitiesByProvenanceIdentifiers ents) t sources (ing, del, g)
     = Inr (ing', del', g') \<Longrightarrow>
   g \<le> g'
   \<and> fst ` set ing' = fst ` set ing
        \<union> (\<Union>S\<in>set sources. incomingKeys S - existingKeys (existingGroup ents (IngestibleSource.identifier S)))
   \<and> fst ` set del' = fst ` set del
        \<union> (\<Union>S\<in>set sources. existingKeys (existingGroup ents (IngestibleSource.identifier S)) - incomingKeys S)
   \<and> (distinct (map fst ing) \<longrightarrow> distinct (map fst ing'))
   \<and> (distinct (map fst del) \<longrightarrow> distinct (map fst del'))
   \<and> (\<forall>p\<in>set ing'. p \<in> set ing \<or> ingestedBy sources t g g' p)
   \<and> (\<forall>p\<in>set del'. p \<in> set del \<or> deletedBy ents sources t g g' p)"
proof (induction sources arbitrary: ing del g)
  case Nil
  then show ?case by simp
next
  case (Cons S sources)
  let ?G = "groupEntitiesByProvenanceIdentifiers ents"
  from Cons.prems obtain ing1 del1 g1 where
    s1: "ingestSources_source ?G t S (ing, del, g) = Inr (ing1, del1, g1)"
    and r1: "ingestSources_loop ?G t sources (ing1, del1, g1) = Inr (ing', del', g')"
    by (auto split: sum.splits)
  note A = source_Inr[OF s1]
  note B = Cons.IH[OF r1]
  have gg: "g \<le> g1" "g1 \<le> g'" using A B by simp_all
  have Ai: "\<forall>p\<in>set ing1. p \<in> set ing \<or> ingestedBy [S] t g g1 p"
    unfolding ingestedBy_def using A by simp
  have Ad: "\<forall>p\<in>set del1. p \<in> set del \<or> deletedBy ents [S] t g g1 p"
    unfolding deletedBy_def using A by simp
  show ?case
  proof (intro conjI)
    show "g \<le> g'" using gg by simp
    show "fst ` set ing' = fst ` set ing
        \<union> (\<Union>S\<in>set (S # sources). incomingKeys S - existingKeys (existingGroup ents (IngestibleSource.identifier S)))"
      using A B by auto
    show "fst ` set del' = fst ` set del
        \<union> (\<Union>S\<in>set (S # sources). existingKeys (existingGroup ents (IngestibleSource.identifier S)) - incomingKeys S)"
      using A B by auto
    show "distinct (map fst ing) \<longrightarrow> distinct (map fst ing')" using A B by simp
    show "distinct (map fst del) \<longrightarrow> distinct (map fst del')" using A B by simp
    show "\<forall>p\<in>set ing'. p \<in> set ing \<or> ingestedBy (S # sources) t g g' p"
    proof
      fix p assume "p \<in> set ing'"
      with B consider "p \<in> set ing1" | "ingestedBy sources t g1 g' p" by blast
      then show "p \<in> set ing \<or> ingestedBy (S # sources) t g g' p"
      proof cases
        case 1
        with Ai consider "p \<in> set ing" | "ingestedBy [S] t g g1 p"
          by blast
        then show ?thesis
        proof cases
          case 1
          then show ?thesis by simp
        next
          case 2
          then have "ingestedBy (S # sources) t g g' p"
            using gg by (elim ingestedBy_mono) auto
          then show ?thesis by simp
        qed
      next
        case 2
        then have "ingestedBy (S # sources) t g g' p"
          using gg by (elim ingestedBy_mono) auto
        then show ?thesis by simp
      qed
    qed
    show "\<forall>p\<in>set del'. p \<in> set del \<or> deletedBy ents (S # sources) t g g' p"
    proof
      fix p assume "p \<in> set del'"
      with B consider "p \<in> set del1" | "deletedBy ents sources t g1 g' p" by blast
      then show "p \<in> set del \<or> deletedBy ents (S # sources) t g g' p"
      proof cases
        case 1
        with Ad consider "p \<in> set del" | "deletedBy ents [S] t g g1 p"
          by blast
        then show ?thesis
        proof cases
          case 1
          then show ?thesis by simp
        next
          case 2
          then have "deletedBy ents (S # sources) t g g' p"
            using gg by (elim deletedBy_mono) auto
          then show ?thesis by simp
        qed
      next
        case 2
        then have "deletedBy ents (S # sources) t g g' p"
          using gg by (elim deletedBy_mono) auto
        then show ?thesis by simp
      qed
    qed
  qed
qed

subsection \<open>The pass that turns a delete and an ingest into a move\<close>

lemma delete_as_filter: "AList.delete k al = filter (\<lambda>p. fst p \<noteq> k) al"
  by (induct al) auto

lemma moves_char:
  "distinct (map fst xs) \<Longrightarrow>
   \<exists>U. ingestSources_moves xs (ing, del, upd, g) =
         (filter (\<lambda>p. \<not> (fst p \<in> fst ` set xs \<and> fst p \<in> fst ` set del)) ing,
          filter (\<lambda>p. \<not> (fst p \<in> fst ` set xs \<and> fst p \<in> fst ` set del)) del,
          upd @ U,
          g + length (filter (\<lambda>p. fst p \<in> fst ` set del) xs))
      \<and> map (\<lambda>u. (TaskUpdateProvenanceEvent.entityID u, TaskUpdateProvenanceEvent.timestampMillis u,
                    TaskUpdateProvenanceEvent.provenance u)) U
         = map (\<lambda>p. (TaskUpdateDeletedEvent.entityID (the (map_of del (fst p))),
                      TaskIngestEvent.timestampMillis (snd p), TaskIngestEvent.provenance (snd p)))
             (filter (\<lambda>p. fst p \<in> fst ` set del) xs)
      \<and> map TaskUpdateProvenanceEvent.id U
         = map uniqueID [g ..< g + length (filter (\<lambda>p. fst p \<in> fst ` set del) xs)]"
proof (induction xs arbitrary: ing del upd g)
  case Nil
  then show ?case by simp
next
  case (Cons x xs)
  obtain k ie where x: "x = (k, ie)" by (cases x)
  from Cons.prems x have dx: "distinct (map fst xs)" and kx: "k \<notin> fst ` set xs" by auto
  show ?case
  proof (cases "map_of del k")
    case None
    then have kd: "k \<notin> fst ` set del" by (simp add: map_of_eq_None_iff)
    from Cons.IH[OF dx, of ing del upd g] obtain U where U:
      "ingestSources_moves xs (ing, del, upd, g) =
         (filter (\<lambda>p. \<not> (fst p \<in> fst ` set xs \<and> fst p \<in> fst ` set del)) ing,
          filter (\<lambda>p. \<not> (fst p \<in> fst ` set xs \<and> fst p \<in> fst ` set del)) del,
          upd @ U,
          g + length (filter (\<lambda>p. fst p \<in> fst ` set del) xs))"
      "map (\<lambda>u. (TaskUpdateProvenanceEvent.entityID u, TaskUpdateProvenanceEvent.timestampMillis u,
                    TaskUpdateProvenanceEvent.provenance u)) U
         = map (\<lambda>p. (TaskUpdateDeletedEvent.entityID (the (map_of del (fst p))),
                      TaskIngestEvent.timestampMillis (snd p), TaskIngestEvent.provenance (snd p)))
             (filter (\<lambda>p. fst p \<in> fst ` set del) xs)"
      "map TaskUpdateProvenanceEvent.id U
         = map uniqueID [g ..< g + length (filter (\<lambda>p. fst p \<in> fst ` set del) xs)]"
      by blast
    have f1: "\<And>al::(string \<times> 'b) list. filter (\<lambda>p. \<not> (fst p \<in> fst ` set (x # xs) \<and> fst p \<in> fst ` set del)) al
             = filter (\<lambda>p. \<not> (fst p \<in> fst ` set xs \<and> fst p \<in> fst ` set del)) al"
      using kd x by (intro filter_cong) auto
    have f2: "filter (\<lambda>p. fst p \<in> fst ` set del) (x # xs) = filter (\<lambda>p. fst p \<in> fst ` set del) xs"
      using kd x by simp
    have e: "ingestSources_moves (x # xs) (ing, del, upd, g) = ingestSources_moves xs (ing, del, upd, g)"
      using None x by simp
    show ?thesis unfolding f1 f2 e using U by blast
  next
    case (Some de)
    then have kd: "k \<in> fst ` set del" by (metis map_of_eq_None_iff option.distinct(1))
    let ?ing = "AList.delete k ing" and ?del = "AList.delete k del"
    let ?ev = "fst (createUpdateProvenanceEvent (TaskUpdateDeletedEvent.entityID de) ie g)"
    have step: "ingestSources_moves (x # xs) (ing, del, upd, g)
                  = ingestSources_moves xs (?ing, ?del, upd @ [?ev], Suc g)"
      using Some x by (simp add: createUpdateProvenanceEvent_eq)
    have keys: "fst ` set ?del = fst ` set del - {k}"
      by (auto simp: delete_as_filter)
    have lk: "\<And>p. p \<in> set xs \<Longrightarrow> map_of ?del (fst p) = map_of del (fst p)"
      using kx by (auto simp: AList.delete_conv')
    from Cons.IH[OF dx, of ?ing ?del "upd @ [?ev]" "Suc g"] obtain U where U:
      "ingestSources_moves xs (?ing, ?del, upd @ [?ev], Suc g) =
         (filter (\<lambda>p. \<not> (fst p \<in> fst ` set xs \<and> fst p \<in> fst ` set ?del)) ?ing,
          filter (\<lambda>p. \<not> (fst p \<in> fst ` set xs \<and> fst p \<in> fst ` set ?del)) ?del,
          (upd @ [?ev]) @ U,
          Suc g + length (filter (\<lambda>p. fst p \<in> fst ` set ?del) xs))"
      "map (\<lambda>u. (TaskUpdateProvenanceEvent.entityID u, TaskUpdateProvenanceEvent.timestampMillis u,
                    TaskUpdateProvenanceEvent.provenance u)) U
         = map (\<lambda>p. (TaskUpdateDeletedEvent.entityID (the (map_of ?del (fst p))),
                      TaskIngestEvent.timestampMillis (snd p), TaskIngestEvent.provenance (snd p)))
             (filter (\<lambda>p. fst p \<in> fst ` set ?del) xs)"
      "map TaskUpdateProvenanceEvent.id U
         = map uniqueID [Suc g ..< Suc g + length (filter (\<lambda>p. fst p \<in> fst ` set ?del) xs)]"
      by blast
    have fx: "filter (\<lambda>p. fst p \<in> fst ` set ?del) xs = filter (\<lambda>p. fst p \<in> fst ` set del) xs"
      using kx keys by (intro filter_cong) auto
    have fi: "filter (\<lambda>p. \<not> (fst p \<in> fst ` set xs \<and> fst p \<in> fst ` set ?del)) ?ing
            = filter (\<lambda>p. \<not> (fst p \<in> fst ` set (x # xs) \<and> fst p \<in> fst ` set del)) ing"
      unfolding delete_as_filter filter_filter using kd keys x by (intro filter_cong) auto
    have fd: "filter (\<lambda>p. \<not> (fst p \<in> fst ` set xs \<and> fst p \<in> fst ` set ?del)) ?del
            = filter (\<lambda>p. \<not> (fst p \<in> fst ` set (x # xs) \<and> fst p \<in> fst ` set del)) del"
      unfolding delete_as_filter filter_filter using kd keys x by (intro filter_cong) auto
    have fl: "filter (\<lambda>p. fst p \<in> fst ` set del) (x # xs) = x # filter (\<lambda>p. fst p \<in> fst ` set del) xs"
      using kd x by simp
    let ?n = "length (filter (\<lambda>p. fst p \<in> fst ` set del) xs)"
    have r1: "ingestSources_moves (x # xs) (ing, del, upd, g) =
         (filter (\<lambda>p. \<not> (fst p \<in> fst ` set (x # xs) \<and> fst p \<in> fst ` set del)) ing,
          filter (\<lambda>p. \<not> (fst p \<in> fst ` set (x # xs) \<and> fst p \<in> fst ` set del)) del,
          upd @ (?ev # U),
          g + length (filter (\<lambda>p. fst p \<in> fst ` set del) (x # xs)))"
      unfolding step U(1) fi fd fx fl by simp
    have r2: "map (\<lambda>u. (TaskUpdateProvenanceEvent.entityID u, TaskUpdateProvenanceEvent.timestampMillis u,
                    TaskUpdateProvenanceEvent.provenance u)) (?ev # U)
         = map (\<lambda>p. (TaskUpdateDeletedEvent.entityID (the (map_of del (fst p))),
                      TaskIngestEvent.timestampMillis (snd p), TaskIngestEvent.provenance (snd p)))
             (filter (\<lambda>p. fst p \<in> fst ` set del) (x # xs))"
      unfolding fl using U(2) Some x lk
      by (simp add: fx createUpdateProvenanceEvent_eq cong: map_cong)
    have r3: "map TaskUpdateProvenanceEvent.id (?ev # U)
         = map uniqueID [g ..< g + length (filter (\<lambda>p. fst p \<in> fst ` set del) (x # xs))]"
    proof -
      have a: "TaskUpdateProvenanceEvent.id ?ev = uniqueID g"
        by (simp add: createUpdateProvenanceEvent_eq)
      have b: "[g ..< g + Suc ?n] = g # [Suc g ..< Suc g + ?n]"
        by (simp add: upt_conv_Cons del: upt_Suc)
      have c: "length (filter (\<lambda>p. fst p \<in> fst ` set del) (x # xs)) = Suc ?n"
        unfolding fl by simp
      show ?thesis unfolding c b using a U(3)[unfolded fx] by (simp del: upt_Suc)
    qed
    from r1 r2 r3 show ?thesis by blast
  qed
qed

subsection \<open>Generated identifiers are distinct\<close>

lemma distinct_map_update:
  "distinct (map (f \<circ> snd) al) \<Longrightarrow> f v \<notin> (f \<circ> snd) ` set al \<Longrightarrow>
   distinct (map (f \<circ> snd) (AList.update k v al))"
  by (induct al) (auto dest: subsetD[OF set_update_subset])

lemma ingestIdsBelow_mono: "ingestIdsBelow g ing \<Longrightarrow> g \<le> g' \<Longrightarrow> ingestIdsBelow g' ing"
  unfolding ingestIdsBelow_def by (meson less_le_trans)

lemma deleteIdsBelow_mono: "deleteIdsBelow g del \<Longrightarrow> g \<le> g' \<Longrightarrow> deleteIdsBelow g' del"
  unfolding deleteIdsBelow_def by (meson less_le_trans)

lemma ingestIdsBelow_update:
  assumes "ingestIdsBelow g ing"
  shows "ingestIdsBelow (Suc (Suc g)) (AList.update k (fst (createIngestTaskForSource S t it g)) ing)"
proof -
  let ?ev = "fst (createIngestTaskForSource S t it g)"
  have ev: "TaskIngestEvent.id ?ev = uniqueID g" "TaskIngestEvent.entityID ?ev = uniqueID (Suc g)"
    by (simp_all add: createIngestTaskForSource_eq)
  have old: "\<forall>p\<in>set ing. \<exists>n. Suc n < g \<and> TaskIngestEvent.id (snd p) = uniqueID n
                          \<and> TaskIngestEvent.entityID (snd p) = uniqueID (Suc n)"
    using assms by (simp add: ingestIdsBelow_def)
  have n1: "TaskIngestEvent.entityID ?ev \<notin> (TaskIngestEvent.entityID \<circ> snd) ` set ing"
    using old ev by (fastforce simp: uniqueID_inj)
  have n2: "TaskIngestEvent.id ?ev \<notin> (TaskIngestEvent.id \<circ> snd) ` set ing"
    using old ev by (fastforce simp: uniqueID_inj)
  have a: "\<forall>p\<in>set (AList.update k ?ev ing). \<exists>n. Suc n < Suc (Suc g) \<and> TaskIngestEvent.id (snd p) = uniqueID n
                          \<and> TaskIngestEvent.entityID (snd p) = uniqueID (Suc n)"
  proof
    fix p assume "p \<in> set (AList.update k ?ev ing)"
    then have "p = (k, ?ev) \<or> p \<in> set ing" using set_update_subset by fastforce
    then show "\<exists>n. Suc n < Suc (Suc g) \<and> TaskIngestEvent.id (snd p) = uniqueID n
                          \<and> TaskIngestEvent.entityID (snd p) = uniqueID (Suc n)"
    proof
      assume "p = (k, ?ev)"
      then show ?thesis using ev by auto
    next
      assume "p \<in> set ing"
      with old obtain n where "Suc n < g" "TaskIngestEvent.id (snd p) = uniqueID n"
        "TaskIngestEvent.entityID (snd p) = uniqueID (Suc n)" by blast
      then have "Suc n < Suc (Suc g) \<and> TaskIngestEvent.id (snd p) = uniqueID n
                          \<and> TaskIngestEvent.entityID (snd p) = uniqueID (Suc n)" by simp
      then show ?thesis by blast
    qed
  qed
  have b: "distinct (map (TaskIngestEvent.entityID \<circ> snd) (AList.update k ?ev ing))"
    using assms n1 by (intro distinct_map_update) (simp_all add: ingestIdsBelow_def)
  have c: "distinct (map (TaskIngestEvent.id \<circ> snd) (AList.update k ?ev ing))"
    using assms n2 by (intro distinct_map_update) (simp_all add: ingestIdsBelow_def)
  show ?thesis unfolding ingestIdsBelow_def using a b c by blast
qed

lemma deleteIdsBelow_update:
  assumes "deleteIdsBelow g del"
  shows "deleteIdsBelow (Suc g) (AList.update k (fst (createDeleteTaskEvent task t g)) del)"
proof -
  let ?ev = "fst (createDeleteTaskEvent task t g)"
  have ev: "TaskUpdateDeletedEvent.id ?ev = uniqueID g"
    by (simp_all add: createDeleteTaskEvent_eq)
  have old: "\<forall>p\<in>set del. \<exists>n. n < g \<and> TaskUpdateDeletedEvent.id (snd p) = uniqueID n"
    using assms by (simp add: deleteIdsBelow_def)
  have n1: "TaskUpdateDeletedEvent.id ?ev \<notin> (TaskUpdateDeletedEvent.id \<circ> snd) ` set del"
    using old ev by (fastforce simp: uniqueID_inj)
  have a: "\<forall>p\<in>set (AList.update k ?ev del). \<exists>n. n < Suc g \<and> TaskUpdateDeletedEvent.id (snd p) = uniqueID n"
  proof
    fix p assume "p \<in> set (AList.update k ?ev del)"
    then have "p = (k, ?ev) \<or> p \<in> set del" using set_update_subset by fastforce
    then show "\<exists>n. n < Suc g \<and> TaskUpdateDeletedEvent.id (snd p) = uniqueID n"
      using ev old less_Suc_eq by fastforce
  qed
  have b: "distinct (map (TaskUpdateDeletedEvent.id \<circ> snd) (AList.update k ?ev del))"
    using assms n1 by (intro distinct_map_update) (simp_all add: deleteIdsBelow_def)
  show ?thesis unfolding deleteIdsBelow_def using a b by blast
qed

lemma newSource_ids:
  "ingestSources_newSource S t its (ing, g) = (ing', g') \<Longrightarrow> ingestIdsBelow g ing \<Longrightarrow>
   ingestIdsBelow g' ing'"
proof (induction its arbitrary: ing g)
  case Nil
  then show ?case by simp
next
  case (Cons i its)
  from Cons.prems(1) have rest:
    "ingestSources_newSource S t its
       (AList.update (IngestibleItem.identifier i) (fst (createIngestTaskForSource S t i g)) ing, Suc (Suc g))
     = (ing', g')"
    by (simp add: createIngestTaskForSource_eq)
  show ?case by (rule Cons.IH[OF rest ingestIdsBelow_update[OF Cons.prems(2)]])
qed

lemma newItems_ids:
  "ingestSources_newItems S t ex inc (ing, g) = (ing', g') \<Longrightarrow> ingestIdsBelow g ing \<Longrightarrow>
   ingestIdsBelow g' ing'"
proof (induction inc arbitrary: ing g)
  case Nil
  then show ?case by simp
next
  case (Cons q inc)
  obtain k i where q: "q = (k, i)" by (cases q)
  show ?case
  proof (cases "map_of ex k = None")
    case False
    with Cons.prems(1) q have "ingestSources_newItems S t ex inc (ing, g) = (ing', g')" by simp
    then show ?thesis using Cons.IH Cons.prems(2) by blast
  next
    case True
    with Cons.prems(1) q have rest:
      "ingestSources_newItems S t ex inc
         (AList.update k (fst (createIngestTaskForSource S t i g)) ing, Suc (Suc g)) = (ing', g')"
      by (simp add: createIngestTaskForSource_eq)
    show ?thesis by (rule Cons.IH[OF rest ingestIdsBelow_update[OF Cons.prems(2)]])
  qed
qed

lemma deletedItems_ids:
  "ingestSources_deletedItems t inc ex (del, g) = (del', g') \<Longrightarrow> deleteIdsBelow g del \<Longrightarrow>
   deleteIdsBelow g' del'"
proof (induction ex arbitrary: del g)
  case Nil
  then show ?case by simp
next
  case (Cons q ex)
  obtain k task where q: "q = (k, task)" by (cases q)
  show ?case
  proof (cases "map_of inc k = None")
    case False
    with Cons.prems(1) q have "ingestSources_deletedItems t inc ex (del, g) = (del', g')" by simp
    then show ?thesis using Cons.IH Cons.prems(2) by blast
  next
    case True
    with Cons.prems(1) q have rest:
      "ingestSources_deletedItems t inc ex
         (AList.update k (fst (createDeleteTaskEvent task t g)) del, Suc g) = (del', g')"
      by (simp add: createDeleteTaskEvent_eq)
    show ?thesis by (rule Cons.IH[OF rest deleteIdsBelow_update[OF Cons.prems(2)]])
  qed
qed

lemma source_ids:
  assumes run: "ingestSources_source G t S (ing, del, g) = Inr (ing', del', g')"
    and inv: "ingestIdsBelow g ing" "deleteIdsBelow g del"
  shows "ingestIdsBelow g' ing' \<and> deleteIdsBelow g' del'"
proof (cases "map_of G (IngestibleSource.identifier S)")
  case None
  from run source_new[OF None] have
    r: "ingestSources_newSource S t (items S) (ing, g) = (ing', g')" and d: "del' = del"
    by (auto simp: prod_eq_iff)
  have "g \<le> g'" using newSource_props[OF r] by simp
  then show ?thesis using newSource_ids[OF r inv(1)] deleteIdsBelow_mono[OF inv(2)] d by simp
next
  case (Some grp)
  from run Some obtain ex inc g1 where
    ni: "ingestSources_newItems S t ex inc (ing, g) = (ing', g1)"
    and di: "ingestSources_deletedItems t inc ex (del, g1) = (del', g')"
    by (auto simp: ingestSources_source_def split: sum.splits prod.splits)
  have g1: "g \<le> g1" "g1 \<le> g'" using newItems_props[OF ni] deletedItems_props[OF di] by simp_all
  have "ingestIdsBelow g' ing'"
    using newItems_ids[OF ni inv(1)] g1 ingestIdsBelow_mono by blast
  moreover have "deleteIdsBelow g' del'"
    using deletedItems_ids[OF di deleteIdsBelow_mono[OF inv(2) g1(1)]] .
  ultimately show ?thesis by simp
qed

lemma loop_ids:
  "ingestSources_loop G t sources (ing, del, g) = Inr (ing', del', g') \<Longrightarrow>
   ingestIdsBelow g ing \<Longrightarrow> deleteIdsBelow g del \<Longrightarrow>
   ingestIdsBelow g' ing' \<and> deleteIdsBelow g' del'"
proof (induction sources arbitrary: ing del g)
  case Nil
  then show ?case by simp
next
  case (Cons S sources)
  from Cons.prems(1) obtain ing1 del1 g1 where
    s1: "ingestSources_source G t S (ing, del, g) = Inr (ing1, del1, g1)"
    and r1: "ingestSources_loop G t sources (ing1, del1, g1) = Inr (ing', del', g')"
    by (auto split: sum.splits)
  from source_ids[OF s1 Cons.prems(2,3)] have "ingestIdsBelow g1 ing1" "deleteIdsBelow g1 del1"
    by simp_all
  then show ?case using Cons.IH[OF r1] by blast
qed

lemma ingestSources_fst:
  "fst (ingestSources sources store opts g) =
     (case ingestSources_loop (groupEntitiesByProvenanceIdentifiers (existingTasks store))
             (ingestDateMillis opts) sources ([], [], g) of
        Inl err \<Rightarrow> Inl err
      | Inr st \<Rightarrow>
          (case ingestSources_moves (fst st) (fst st, fst (snd st), [], snd (snd st)) of
             (ingestEvents1, deleteEvents1, updateProvenanceEvents, g2) \<Rightarrow>
               Inr (map (TaskIngest \<circ> snd) ingestEvents1
                    @ map (TaskUpdateDeleted \<circ> snd) deleteEvents1
                    @ map TaskUpdateProvenance updateProvenanceEvents)))"
  by (simp add: ingestSources_def existingTasks_def listEntities_def Let_def
           split: sum.splits prod.splits)

lemma ingestSources_snd: "snd (ingestSources sources store opts g) = store"
  by (simp add: ingestSources_def listEntities_def Let_def split: sum.splits prod.splits)

lemma tasksOf_filter_type: "tasksOf (filter (\<lambda>e. entityTypeOf e = TaskType) es) = tasksOf es"
  by (induction es rule: tasksOf.induct) auto

lemma tasksOf_keep: "tasksOf (filter (keepTask P) es) = filter P (tasksOf es)"
  by (induction es rule: tasksOf.induct) (auto simp: keepTask_def)

lemma existingTasks_eq: "existingTasks store = tasksOf (map (entity \<circ> snd) (entities (database store)))"
  by (simp add: existingTasks_def listEntities_def tasksOf_filter_type)

lemma existingTasks_keepTasks: "existingTasks (keepTasks P store) = filter P (existingTasks store)"
proof -
  have "map (entity \<circ> snd) (filter (\<lambda>r. keepTask P (entity (snd r))) xs)
          = filter (keepTask P) (map (entity \<circ> snd) xs)" for xs :: "(ID \<times> DatabaseBackendEntityRecord) list"
    by (induction xs) auto
  then show ?thesis by (simp add: existingTasks_eq keepTasks_def tasksOf_keep)
qed

lemma existingGroup_filter:
  "(\<And>t. hasProvenanceIdentifier i t \<Longrightarrow> P t) \<Longrightarrow> existingGroup (filter P ents) i = existingGroup ents i"
  unfolding existingGroup_def filter_filter by (rule filter_cong) auto

lemma ingestSources_keepTasks:
  assumes "\<And>S t. S \<in> set sources \<Longrightarrow> hasProvenanceIdentifier (IngestibleSource.identifier S) t \<Longrightarrow> P t"
  shows "fst (ingestSources sources (keepTasks P store) opts g) = fst (ingestSources sources store opts g)"
proof -
  have "ingestSources_loop (groupEntitiesByProvenanceIdentifiers (filter P (existingTasks store))) t sources st
      = ingestSources_loop (groupEntitiesByProvenanceIdentifiers (existingTasks store)) t sources st" for t st
    using assms by (intro loop_cong) (simp add: group_lookup existingGroup_filter)
  then show ?thesis by (simp add: ingestSources_fst existingTasks_keepTasks)
qed

lemma ingestSources_Inl_iff:
  "fst (ingestSources sources store opts g) = Inl e \<longleftrightarrow>
   ingestSources_loop (groupEntitiesByProvenanceIdentifiers (existingTasks store))
     (ingestDateMillis opts) sources ([], [], g) = Inl e"
  by (simp add: ingestSources_fst split: sum.splits prod.splits)

lemma ingestSources_append_error:
  assumes "\<And>st. ingestSources_source (groupEntitiesByProvenanceIdentifiers (existingTasks store))
              (ingestDateMillis opts) S st = Inl e"
  shows "fst (ingestSources (pre @ S # post) store opts g) =
           (case fst (ingestSources pre store opts g) of Inl e' \<Rightarrow> Inl e' | Inr evs \<Rightarrow> Inl e)"
proof (cases "fst (ingestSources pre store opts g)")
  case (Inl e')
  then have "fst (ingestSources (pre @ S # post) store opts g) = Inl e'"
    unfolding ingestSources_Inl_iff by (simp add: loop_append)
  then show ?thesis using Inl by simp
next
  case (Inr evs)
  then obtain st where "ingestSources_loop (groupEntitiesByProvenanceIdentifiers (existingTasks store))
     (ingestDateMillis opts) pre ([], [], g) = Inr st"
    by (auto simp: ingestSources_fst split: sum.splits)
  then have "fst (ingestSources (pre @ S # post) store opts g) = Inl e"
    unfolding ingestSources_Inl_iff using assms by (simp add: loop_append)
  then show ?thesis using Inr by simp
qed

lemma ingestSources_of_loop:
  assumes loop: "ingestSources_loop (groupEntitiesByProvenanceIdentifiers (existingTasks store))
             (ingestDateMillis opts) sources ([], [], g) = Inr (ing, del, g1)"
  shows "distinct (map fst ing) \<and> distinct (map fst del) \<and>
     (\<exists>U. fst (ingestSources sources store opts g) =
           Inr (map (TaskIngest \<circ> snd) (filter (\<lambda>p. fst p \<notin> fst ` set del) ing)
                @ map (TaskUpdateDeleted \<circ> snd) (filter (\<lambda>p. fst p \<notin> fst ` set ing) del)
                @ map TaskUpdateProvenance U)
        \<and> map (\<lambda>u. (TaskUpdateProvenanceEvent.entityID u, TaskUpdateProvenanceEvent.timestampMillis u,
                      TaskUpdateProvenanceEvent.provenance u)) U
           = map (\<lambda>p. (TaskUpdateDeletedEvent.entityID (the (map_of del (fst p))),
                        TaskIngestEvent.timestampMillis (snd p), TaskIngestEvent.provenance (snd p)))
               (filter (\<lambda>p. fst p \<in> fst ` set del) ing)
        \<and> map TaskUpdateProvenanceEvent.id U
           = map uniqueID [g1 ..< g1 + length (filter (\<lambda>p. fst p \<in> fst ` set del) ing)])"
proof -
  from loop_Inr[OF loop] have d: "distinct (map fst ing)" "distinct (map fst del)" by simp_all
  from moves_char[OF d(1), of ing del "[]" g1] obtain U where U:
    "ingestSources_moves ing (ing, del, [], g1) =
         (filter (\<lambda>p. \<not> (fst p \<in> fst ` set ing \<and> fst p \<in> fst ` set del)) ing,
          filter (\<lambda>p. \<not> (fst p \<in> fst ` set ing \<and> fst p \<in> fst ` set del)) del,
          [] @ U,
          g1 + length (filter (\<lambda>p. fst p \<in> fst ` set del) ing))"
    "map (\<lambda>u. (TaskUpdateProvenanceEvent.entityID u, TaskUpdateProvenanceEvent.timestampMillis u,
                    TaskUpdateProvenanceEvent.provenance u)) U
         = map (\<lambda>p. (TaskUpdateDeletedEvent.entityID (the (map_of del (fst p))),
                      TaskIngestEvent.timestampMillis (snd p), TaskIngestEvent.provenance (snd p)))
             (filter (\<lambda>p. fst p \<in> fst ` set del) ing)"
    "map TaskUpdateProvenanceEvent.id U
         = map uniqueID [g1 ..< g1 + length (filter (\<lambda>p. fst p \<in> fst ` set del) ing)]"
    by blast
  have f1: "filter (\<lambda>p. \<not> (fst p \<in> fst ` set ing \<and> fst p \<in> fst ` set del)) ing
          = filter (\<lambda>p. fst p \<notin> fst ` set del) ing"
    by (rule filter_cong) auto
  have f2: "filter (\<lambda>p. \<not> (fst p \<in> fst ` set ing \<and> fst p \<in> fst ` set del)) del
          = filter (\<lambda>p. fst p \<notin> fst ` set ing) del"
    by (rule filter_cong) auto
  have "fst (ingestSources sources store opts g) =
           Inr (map (TaskIngest \<circ> snd) (filter (\<lambda>p. fst p \<notin> fst ` set del) ing)
                @ map (TaskUpdateDeleted \<circ> snd) (filter (\<lambda>p. fst p \<notin> fst ` set ing) del)
                @ map TaskUpdateProvenance U)"
    unfolding ingestSources_fst loop using U(1)[unfolded f1 f2] by simp
  with U(2,3) d show ?thesis by blast
qed

lemma ingestSources_Inr_loop:
  assumes "fst (ingestSources sources store opts g) = Inr evs"
  shows "\<exists>ing del g1. ingestSources_loop (groupEntitiesByProvenanceIdentifiers (existingTasks store))
             (ingestDateMillis opts) sources ([], [], g) = Inr (ing, del, g1)"
  using assms by (cases "ingestSources_loop (groupEntitiesByProvenanceIdentifiers (existingTasks store))
             (ingestDateMillis opts) sources ([], [], g)") (auto simp: ingestSources_fst)

text \<open>
  C5: \<open>ingestSources\<close> never mutates the store. The store it leaves is the one it was given
  with the database as the single \<open>listEntities\<close> query left it, and that query reads
  only; so the store after the call, whether it returns events or fails, is the store
  before it, with every entity record, event and derived row unchanged.
\<close>

theorem ingestSources_leaves_store_unchanged:
  "snd (ingestSources sources store opts g)
     = store\<lparr>database := snd (listEntities \<lparr>entityType = TaskType\<rparr> (database store))\<rparr>
   \<and> snd (ingestSources sources store opts g) = store"
  by (simp add: ingestSources_def listEntities_def Let_def split: sum.splits prod.splits)

text \<open>
  C9: a stored task without provenance is invisible to reconciliation. The outcome of a
  call, events or error, is the outcome on the store from which every task without
  provenance is removed: such a task yields no deletion or provenance-update event and its
  metadata is never read, so it cannot raise MissingItemIdentifierError; sources are
  matched against stored tasks through the provenance identifiers only.
\<close>

theorem tasks_without_provenance_invisible:
  "fst (ingestSources sources store opts g) =
   fst (ingestSources sources (keepTasks (\<lambda>t. Task.provenance t \<noteq> None) store) opts g)"
  by (rule ingestSources_keepTasks[symmetric]) (auto simp: hasProvenanceIdentifier_def split: option.splits)

lemmas sample_defs = sampleTask_def sampleStore_def sampleSource_def sampleOptions_def
  INGEST_ITEM_IDENTIFIER_KEY_def

lemmas ingest_eval = ingestSources_def listEntities_def groupEntitiesByProvenanceIdentifiers_def
  ingestSources_source_def mapEntitiesByItemIdentifier_def mapIngestibleItemsByItemIdentifier_def
  truthy_def createIngestTaskForSource_def createDeleteTaskEvent_def createUpdateProvenanceEvent_def
  generateUniqueID_def provenanceOfSource_def uniqueID_def

lemma deletedBy_listed:
  assumes "deletedBy (existingTasks store) sources t g g' p"
  shows "entityOfListedSource sources store (TaskUpdateDeletedEvent.entityID (snd p))"
proof -
  from assms obtain S task n where
    h: "S \<in> set sources" "task \<in> set (existingGroup (existingTasks store) (IngestibleSource.identifier S))"
       "snd p = fst (createDeleteTaskEvent task t n)"
    unfolding deletedBy_def by blast
  from h(2) have "task \<in> set (existingTasks store)"
    "hasProvenanceIdentifier (IngestibleSource.identifier S) task"
    by (simp_all add: existingGroup_def)
  moreover have "TaskUpdateDeletedEvent.entityID (snd p) = Task.id task"
    using h(3) by (simp add: createDeleteTaskEvent_eq)
  ultimately show ?thesis
    using h(1) unfolding entityOfListedSource_def fromListedSource_def list_ex_iff by metis
qed

text \<open>
  C10: deletion and provenance-update events are emitted only for stored tasks whose
  provenance identifier is the identifier of a source passed in the call. The outcome of the
  call is the same as on the store from which the tasks of all other sources are removed, and
  every deletion or provenance-update event that is returned carries the id of a stored task
  of a listed source.
\<close>

theorem only_listed_sources_contribute:
  "fst (ingestSources sources store opts g)
     = fst (ingestSources sources (keepTasks (fromListedSource sources) store) opts g)
   \<and> (\<forall>evs. fst (ingestSources sources store opts g) = Inr evs
          \<longrightarrow> list_all (emittedForListedSource sources store) evs)"
proof (intro conjI allI impI)
  show "fst (ingestSources sources store opts g)
     = fst (ingestSources sources (keepTasks (fromListedSource sources) store) opts g)"
    by (rule ingestSources_keepTasks[symmetric])
       (auto simp: fromListedSource_def list_ex_iff)
next
  fix evs assume ok: "fst (ingestSources sources store opts g) = Inr evs"
  let ?ents = "existingTasks store" and ?t = "ingestDateMillis opts"
  from ingestSources_Inr_loop[OF ok] obtain ing del g1 where
    loop: "ingestSources_loop (groupEntitiesByProvenanceIdentifiers ?ents) ?t sources ([], [], g)
             = Inr (ing, del, g1)" by blast
  from loop_Inr[OF loop] have del: "\<forall>p\<in>set del. deletedBy ?ents sources ?t g g1 p" by simp
  from ingestSources_of_loop[OF loop] ok obtain U where
    evs: "evs = map (TaskIngest \<circ> snd) (filter (\<lambda>p. fst p \<notin> fst ` set del) ing)
                @ map (TaskUpdateDeleted \<circ> snd) (filter (\<lambda>p. fst p \<notin> fst ` set ing) del)
                @ map TaskUpdateProvenance U"
    and U: "map (\<lambda>u. (TaskUpdateProvenanceEvent.entityID u, TaskUpdateProvenanceEvent.timestampMillis u,
                      TaskUpdateProvenanceEvent.provenance u)) U
           = map (\<lambda>p. (TaskUpdateDeletedEvent.entityID (the (map_of del (fst p))),
                        TaskIngestEvent.timestampMillis (snd p), TaskIngestEvent.provenance (snd p)))
               (filter (\<lambda>p. fst p \<in> fst ` set del) ing)"
    by auto
  have d: "\<And>p. p \<in> set del \<Longrightarrow>
             entityOfListedSource sources store (TaskUpdateDeletedEvent.entityID (snd p))"
    using del deletedBy_listed by blast
  have u: "entityOfListedSource sources store (TaskUpdateProvenanceEvent.entityID x)" if "x \<in> set U" for x
  proof -
    let ?proj = "\<lambda>u. (TaskUpdateProvenanceEvent.entityID u, TaskUpdateProvenanceEvent.timestampMillis u,
                      TaskUpdateProvenanceEvent.provenance u)"
    from that have "?proj x \<in> set (map ?proj U)" by simp
    then obtain p where p: "p \<in> set ing" "fst p \<in> fst ` set del"
      "TaskUpdateProvenanceEvent.entityID x = TaskUpdateDeletedEvent.entityID (the (map_of del (fst p)))"
      unfolding U by auto
    from p(2) obtain de where de: "map_of del (fst p) = Some de"
      by (metis map_of_eq_None_iff option.exhaust)
    then have "(fst p, de) \<in> set del" by (rule map_of_SomeD)
    from d[OF this] show ?thesis using p(3) de by simp
  qed
  show "list_all (emittedForListedSource sources store) evs"
    unfolding evs list_all_iff using d u by auto
qed

theorem only_listed_sources_contribute_witness:
  "fst (ingestSources [sampleSource ''A'' []] storeWithForeignTask sampleOptions 0)
     = Inr [TaskUpdateDeleted \<lparr>TaskUpdateDeletedEvent.id = ''uid:'', entityID = ''ta'',
              timestampMillis = 1000, isDeleted = True\<rparr>]
   \<and> fst (ingestSources [sampleSource ''A'' []]
            (keepTasks (fromListedSource [sampleSource ''A'' []]) storeWithForeignTask) sampleOptions 0)
     = Inr [TaskUpdateDeleted \<lparr>TaskUpdateDeletedEvent.id = ''uid:'', entityID = ''ta'',
              timestampMillis = 1000, isDeleted = True\<rparr>]
   \<and> list_all (emittedForListedSource [sampleSource ''A'' []] storeWithForeignTask)
        [TaskUpdateDeleted \<lparr>TaskUpdateDeletedEvent.id = ''uid:'', entityID = ''ta'',
              timestampMillis = 1000, isDeleted = True\<rparr>]"
proof -
  have r: "fst (ingestSources [sampleSource ''A'' []] storeWithForeignTask sampleOptions 0)
     = Inr [TaskUpdateDeleted \<lparr>TaskUpdateDeletedEvent.id = ''uid:'', entityID = ''ta'',
              timestampMillis = 1000, isDeleted = True\<rparr>]"
    by (simp add: storeWithForeignTask_def sample_defs ingest_eval)
  from only_listed_sources_contribute[of "[sampleSource ''A'' []]" storeWithForeignTask sampleOptions 0]
  show ?thesis unfolding r by simp
qed

text \<open>
  C6, as stated, fails: the stored task of source B lacks the item identifier, but the call
  raises the duplicate-identifier error of source A, which is processed first.
\<close>

theorem missing_item_identifier_counterexample:
  "list_ex (\<lambda>t. hasProvenanceIdentifier ''B'' t
                \<and> map_of (Task.metadata t) INGEST_ITEM_IDENTIFIER_KEY = None)
      (existingTasks storeWithBrokenTask)
   \<and> fst (ingestSources [sampleSource ''A'' [''x'', ''x''], sampleSource ''B'' []]
            storeWithBrokenTask sampleOptions 0)
     = Inl (DuplicateItemIdentifierError ''x'')
   \<and> fst (ingestSources [sampleSource ''A'' [''x'', ''x''], sampleSource ''B'' []]
            storeWithBrokenTask sampleOptions 0)
     \<noteq> Inl MissingItemIdentifierError"
  by (simp add: storeWithBrokenTask_def sample_defs ingest_eval existingTasks_def
        hasProvenanceIdentifier_def)

text \<open>
  C6, amended: if a stored task whose provenance identifier is that of an incoming source
  \<open>S\<close> has no item identifier in its metadata (or an empty one), the call fails. The error
  is that of the sources listed before \<open>S\<close> when reconciling them alone fails, and
  MissingItemIdentifierError otherwise.
\<close>

theorem missing_item_identifier_fails:
  assumes "sources = pre @ S # post"
    and "list_ex (\<lambda>t. hasProvenanceIdentifier (IngestibleSource.identifier S) t
                       \<and> itemIdentifierOf t = None) (existingTasks store)"
  shows "fst (ingestSources sources store opts g) =
           (case fst (ingestSources pre store opts g) of
              Inl err \<Rightarrow> Inl err
            | Inr evs \<Rightarrow> Inl MissingItemIdentifierError)"
proof -
  let ?grp = "existingGroup (existingTasks store) (IngestibleSource.identifier S)"
  from assms(2) have bad: "\<exists>t\<in>set ?grp. itemIdentifierOf t = None"
    by (auto simp: list_ex_iff existingGroup_def)
  then have "?grp \<noteq> []" by auto
  then have "map_of (groupEntitiesByProvenanceIdentifiers (existingTasks store))
               (IngestibleSource.identifier S) = Some ?grp"
    by (simp add: group_lookup)
  from source_missing[OF this bad]
  show ?thesis unfolding assms(1) by (intro ingestSources_append_error)
qed

theorem missing_item_identifier_fails_witness:
  "list_ex (\<lambda>t. hasProvenanceIdentifier (IngestibleSource.identifier (sampleSource ''B'' [])) t
                 \<and> itemIdentifierOf t = None) (existingTasks storeWithBrokenTask)
   \<and> fst (ingestSources ([] @ sampleSource ''B'' [] # [sampleSource ''A'' [''x'', ''x'']])
            storeWithBrokenTask sampleOptions 0)
     = Inl MissingItemIdentifierError"
proof -
  have h: "list_ex (\<lambda>t. hasProvenanceIdentifier (IngestibleSource.identifier (sampleSource ''B'' [])) t
                 \<and> itemIdentifierOf t = None) (existingTasks storeWithBrokenTask)"
    by (simp add: storeWithBrokenTask_def sample_defs existingTasks_def listEntities_def
          hasProvenanceIdentifier_def itemIdentifierOf_def)
  have e: "fst (ingestSources [] storeWithBrokenTask sampleOptions 0) = Inr []"
    by (simp add: ingest_eval)
  from missing_item_identifier_fails[OF refl h, of "[]" "[sampleSource ''A'' [''x'', ''x'']]" sampleOptions 0]
  show ?thesis using h by (simp add: e)
qed

text \<open>
  A source that matches a group of stored tasks is checked for duplicate item identifiers:
  if all tasks of the group carry an item identifier and the source presents two items
  with the same identifier, the call fails, with the error of the sources listed before it
  when reconciling them alone fails, and otherwise with DuplicateItemIdentifierError naming
  the first identifier of the source that repeats an earlier one.
\<close>

lemma existing_source_duplicate_items_fail:
  assumes "sources = pre @ S # post"
    and "existingGroup (existingTasks store) (IngestibleSource.identifier S) \<noteq> []"
    and "list_all (\<lambda>t. itemIdentifierOf t \<noteq> None)
           (existingGroup (existingTasks store) (IngestibleSource.identifier S))"
    and "\<not> distinct (map IngestibleItem.identifier (items S))"
  shows "\<exists>ys k zs. map IngestibleItem.identifier (items S) = ys @ k # zs
           \<and> distinct ys \<and> k \<in> set ys
           \<and> fst (ingestSources sources store opts g) =
               (case fst (ingestSources pre store opts g) of
                  Inl err \<Rightarrow> Inl err
                | Inr evs \<Rightarrow> Inl (DuplicateItemIdentifierError k))"
proof -
  let ?G = "groupEntitiesByProvenanceIdentifiers (existingTasks store)"
  let ?grp = "existingGroup (existingTasks store) (IngestibleSource.identifier S)"
  have grp: "map_of ?G (IngestibleSource.identifier S) = Some ?grp"
    using assms(2) by (simp add: group_lookup)
  have ok: "\<forall>t\<in>set ?grp. itemIdentifierOf t \<noteq> None"
    using assms(3) by (simp add: list_all_iff)
  from mapEntities_total[OF ok] obtain ex where ex: "mapEntitiesByItemIdentifier ?grp = Inr ex"
    by blast
  from mapItems_dup[OF assms(4)] obtain ys k zs where
    h: "map IngestibleItem.identifier (items S) = ys @ k # zs" "distinct ys" "k \<in> set ys"
       "mapIngestibleItemsByItemIdentifier (items S) = Inl (DuplicateItemIdentifierError k)"
    by blast
  have "\<And>st. ingestSources_source ?G (ingestDateMillis opts) S st = Inl (DuplicateItemIdentifierError k)"
    using grp ex h(4) by (simp add: ingestSources_source_def split: prod.splits)
  then have "fst (ingestSources sources store opts g) =
               (case fst (ingestSources pre store opts g) of
                  Inl err \<Rightarrow> Inl err
                | Inr evs \<Rightarrow> Inl (DuplicateItemIdentifierError k))"
    unfolding assms(1) by (intro ingestSources_append_error)
  with h(1,2,3) show ?thesis by blast
qed

text \<open>
  C3: the code does not do what the claim says for a source that matches no group of stored
  tasks. The call with the single source N, which presents two items with the item
  identifier x, on a store without tasks does not fail: \<open>mapIngestibleItemsByItemIdentifier\<close>,
  the only place that raises DuplicateItemIdentifierError, is not called for such a source.
  The call returns one ingest event, that of the later item, under the third and fourth
  identifier drawn; the event of the earlier item is replaced without notice. The same two
  items presented by a source S that matches a stored task raise
  DuplicateItemIdentifierError naming x.
\<close>

theorem new_source_duplicate_items_not_rejected:
  "\<not> distinct (map IngestibleItem.identifier (items (sourceWithDuplicateItems ''N'')))
   \<and> existingGroup (existingTasks (sampleStore []))
        (IngestibleSource.identifier (sourceWithDuplicateItems ''N'')) = []
   \<and> fst (ingestSources [sourceWithDuplicateItems ''N''] (sampleStore []) sampleOptions 0)
     = Inr [TaskIngest \<lparr>TaskIngestEvent.id = ''uid:++'', spec = ''second'', entityID = ''uid:+++'',
              timestampMillis = 1000, metadata = [(''ingestSourceIdentifier'', ''x'')],
              provenance = \<lparr>TaskProvenance.identifier = ''N'', title = ''title'', url = None,
                            colorPaletteName = None\<rparr>\<rparr>]
   \<and> existingGroup (existingTasks storeWithOneTask)
        (IngestibleSource.identifier (sourceWithDuplicateItems ''S'')) \<noteq> []
   \<and> fst (ingestSources [sourceWithDuplicateItems ''S''] storeWithOneTask sampleOptions 0)
     = Inl (DuplicateItemIdentifierError ''x'')"
  by (simp add: sourceWithDuplicateItems_def storeWithOneTask_def sample_defs ingest_eval
        existingTasks_def existingGroup_def hasProvenanceIdentifier_def)

lemma ingestEventsOf_append: "ingestEventsOf (xs @ ys) = ingestEventsOf xs @ ingestEventsOf ys"
  by (induction xs rule: ingestEventsOf.induct) auto

lemma ingestEventsOf_ingest: "ingestEventsOf (map (TaskIngest \<circ> f) xs) = map f xs"
  by (induction xs) auto

lemma ingestEventsOf_deleted: "ingestEventsOf (map (TaskUpdateDeleted \<circ> f) xs) = []"
  by (induction xs) auto

lemma ingestEventsOf_provenance: "ingestEventsOf (map TaskUpdateProvenance xs) = []"
  by (induction xs) auto

lemma filter_key_distinct:
  "distinct (map fst al) \<Longrightarrow> (k, v) \<in> set al \<Longrightarrow> filter (\<lambda>p. fst p = k) al = [(k, v)]"
proof (induction al)
  case Nil
  then show ?case by simp
next
  case (Cons a al)
  show ?case
  proof (cases "a = (k, v)")
    case True
    then have "k \<notin> fst ` set al" using Cons.prems(1) by auto
    then have "filter (\<lambda>p. fst p = k) al = []" by (auto simp: filter_empty_conv)
    then show ?thesis using True by simp
  next
    case False
    then have in_al: "(k, v) \<in> set al" using Cons.prems(2) by simp
    then have "fst a \<noteq> k" using Cons.prems(1) by (auto simp: rev_image_eqI)
    then show ?thesis using Cons.IH in_al Cons.prems(1) by simp
  qed
qed

lemma ingestedBy_fields:
  assumes "ingestedBy sources t g g' p"
  shows "TaskIngestEvent.metadata (snd p) = [(INGEST_ITEM_IDENTIFIER_KEY, fst p)]"
    and "TaskIngestEvent.timestampMillis (snd p) = t"
    and "\<exists>n\<ge>g. TaskIngestEvent.id (snd p) = uniqueID n \<and> TaskIngestEvent.entityID (snd p) = uniqueID (Suc n)"
    and "\<exists>S\<in>set sources. \<exists>it\<in>set (items S). IngestibleItem.identifier it = fst p
           \<and> TaskIngestEvent.spec (snd p) = IngestibleItem.spec it
           \<and> TaskIngestEvent.provenance (snd p) = provenanceOfSource S"
proof -
  from assms obtain S it n where h: "S \<in> set sources" "it \<in> set (items S)" "g \<le> n"
    "p = (IngestibleItem.identifier it, fst (createIngestTaskForSource S t it n))"
    unfolding ingestedBy_def by blast
  show "TaskIngestEvent.metadata (snd p) = [(INGEST_ITEM_IDENTIFIER_KEY, fst p)]"
    using h(4) by (simp add: createIngestTaskForSource_eq)
  show "TaskIngestEvent.timestampMillis (snd p) = t"
    using h(4) by (simp add: createIngestTaskForSource_eq)
  show "\<exists>n\<ge>g. TaskIngestEvent.id (snd p) = uniqueID n \<and> TaskIngestEvent.entityID (snd p) = uniqueID (Suc n)"
    using h(3,4) by (auto simp: createIngestTaskForSource_eq)
  have "IngestibleItem.identifier it = fst p
           \<and> TaskIngestEvent.spec (snd p) = IngestibleItem.spec it
           \<and> TaskIngestEvent.provenance (snd p) = provenanceOfSource S"
    using h(4) by (simp add: createIngestTaskForSource_eq)
  then show "\<exists>S\<in>set sources. \<exists>it\<in>set (items S). IngestibleItem.identifier it = fst p
           \<and> TaskIngestEvent.spec (snd p) = IngestibleItem.spec it
           \<and> TaskIngestEvent.provenance (snd p) = provenanceOfSource S"
    using h(1,2) by blast
qed

lemma loop_start:
  assumes loop: "ingestSources_loop (groupEntitiesByProvenanceIdentifiers ents) t sources ([], [], g)
             = Inr (ing, del, g1)"
  shows "distinct (map fst ing)" and "distinct (map fst del)"
    and "fst ` set ing = (\<Union>S\<in>set sources. incomingKeys S
            - existingKeys (existingGroup ents (IngestibleSource.identifier S)))"
    and "fst ` set del = (\<Union>S\<in>set sources.
            existingKeys (existingGroup ents (IngestibleSource.identifier S)) - incomingKeys S)"
    and "\<And>p. p \<in> set ing \<Longrightarrow> ingestedBy sources t g g1 p"
    and "\<And>p. p \<in> set del \<Longrightarrow> deletedBy ents sources t g g1 p"
    and "ingestIdsBelow g1 ing" and "deleteIdsBelow g1 del"
proof -
  note L = loop_Inr[OF loop]
  show "distinct (map fst ing)" "distinct (map fst del)" using L by simp_all
  show "fst ` set ing = (\<Union>S\<in>set sources. incomingKeys S
            - existingKeys (existingGroup ents (IngestibleSource.identifier S)))" using L by simp
  show "fst ` set del = (\<Union>S\<in>set sources.
            existingKeys (existingGroup ents (IngestibleSource.identifier S)) - incomingKeys S)"
    using L by simp
  show "\<And>p. p \<in> set ing \<Longrightarrow> ingestedBy sources t g g1 p" using L by simp
  show "\<And>p. p \<in> set del \<Longrightarrow> deletedBy ents sources t g g1 p" using L by simp
  have "ingestIdsBelow g []" "deleteIdsBelow g []"
    by (simp_all add: ingestIdsBelow_def deleteIdsBelow_def)
  from loop_ids[OF loop this] show "ingestIdsBelow g1 ing" "deleteIdsBelow g1 del" by simp_all
qed

text \<open>
  C2: when the first loop leaves the same item identifier \<open>k\<close> in both the ingest map and
  the delete map, the returned list has the ingest events of the keys that are not in the
  delete map, the delete events of the keys that are not in the ingest map, and one
  provenance-update event for each key in both maps, in the order of the ingest map. The
  update event for \<open>k\<close> exists, occupies one position only, differs from every other update
  event, and carries the entity id of the cancelled delete event and the provenance and
  timestamp of the cancelled ingest event. No returned ingest event has \<open>k\<close> as its item
  identifier, and neither cancelled event is returned. The entity id of the delete event is
  the id of a stored task whose item identifier is \<open>k\<close>.
\<close>

theorem move_replaces_ingest_and_delete:
  assumes loop: "ingestSources_loop (groupEntitiesByProvenanceIdentifiers (existingTasks store))
             (ingestDateMillis opts) sources ([], [], g) = Inr (ing, del, g1)"
    and ik: "map_of ing k = Some ie"
    and dk: "map_of del k = Some de"
  shows "\<exists>U. fst (ingestSources sources store opts g) =
           Inr (map (TaskIngest \<circ> snd) (filter (\<lambda>p. fst p \<notin> fst ` set del) ing)
                @ map (TaskUpdateDeleted \<circ> snd) (filter (\<lambda>p. fst p \<notin> fst ` set ing) del)
                @ map TaskUpdateProvenance U)
        \<and> length U = length (filter (\<lambda>p. fst p \<in> fst ` set del) ing)
        \<and> (\<exists>j<length U.
              fst (filter (\<lambda>p. fst p \<in> fst ` set del) ing ! j) = k
              \<and> (\<forall>i<length U. fst (filter (\<lambda>p. fst p \<in> fst ` set del) ing ! i) = k \<longrightarrow> i = j)
              \<and> (\<forall>i<length U. i \<noteq> j \<longrightarrow> U ! i \<noteq> U ! j)
              \<and> TaskUpdateProvenanceEvent.entityID (U ! j) = TaskUpdateDeletedEvent.entityID de
              \<and> TaskUpdateProvenanceEvent.provenance (U ! j) = TaskIngestEvent.provenance ie
              \<and> TaskUpdateProvenanceEvent.timestampMillis (U ! j) = TaskIngestEvent.timestampMillis ie)
        \<and> list_all (\<lambda>p. TaskIngestEvent.metadata (snd p) \<noteq> [(INGEST_ITEM_IDENTIFIER_KEY, k)])
             (filter (\<lambda>p. fst p \<notin> fst ` set del) ing)
        \<and> ie \<notin> snd ` set (filter (\<lambda>p. fst p \<notin> fst ` set del) ing)
        \<and> de \<notin> snd ` set (filter (\<lambda>p. fst p \<notin> fst ` set ing) del)
        \<and> list_ex (\<lambda>task. itemIdentifierOf task = Some k
                           \<and> Task.id task = TaskUpdateDeletedEvent.entityID de)
             (existingTasks store)"
proof -
  let ?moved = "filter (\<lambda>p. fst p \<in> fst ` set del) ing"
  let ?proj = "\<lambda>u. (TaskUpdateProvenanceEvent.entityID u, TaskUpdateProvenanceEvent.timestampMillis u,
                      TaskUpdateProvenanceEvent.provenance u)"
  let ?f = "\<lambda>p. (TaskUpdateDeletedEvent.entityID (the (map_of del (fst p))),
                        TaskIngestEvent.timestampMillis (snd p), TaskIngestEvent.provenance (snd p))"
  note S = loop_start[OF loop]
  from ingestSources_of_loop[OF loop, THEN conjunct2, THEN conjunct2] obtain U where
    res: "fst (ingestSources sources store opts g) =
           Inr (map (TaskIngest \<circ> snd) (filter (\<lambda>p. fst p \<notin> fst ` set del) ing)
                @ map (TaskUpdateDeleted \<circ> snd) (filter (\<lambda>p. fst p \<notin> fst ` set ing) del)
                @ map TaskUpdateProvenance U)"
    and U: "map ?proj U = map ?f ?moved"
    and ids: "map TaskUpdateProvenanceEvent.id U = map uniqueID [g1 ..< g1 + length ?moved]"
    by (elim exE conjE) (rule that)
  have len: "length U = length ?moved" using arg_cong[OF U, of length] by simp
  have kin: "(k, ie) \<in> set ing" using ik by (rule map_of_SomeD)
  have kde: "(k, de) \<in> set del" using dk by (rule map_of_SomeD)
  have kd: "k \<in> fst ` set del" using kde by force
  have ki: "k \<in> fst ` set ing" using kin by force
  have "(k, ie) \<in> set ?moved" using kin kd by simp
  then have "\<exists>j<length ?moved. ?moved ! j = (k, ie)" by (simp only: in_set_conv_nth)
  then obtain j where j: "j < length ?moved" "?moved ! j = (k, ie)" by blast
  have dm: "distinct (map fst ?moved)" using S(1) by (rule distinct_map_filter)
  have uniq: "\<forall>i<length U. fst (?moved ! i) = k \<longrightarrow> i = j"
  proof (intro allI impI)
    fix i assume i: "i < length U" "fst (?moved ! i) = k"
    then have "map fst ?moved ! i = map fst ?moved ! j" using j len by simp
    moreover have "i < length (map fst ?moved)" "j < length (map fst ?moved)"
      using i(1) j(1) len by simp_all
    ultimately show "i = j" using nth_eq_iff_index_eq[OF dm] by blast
  qed
  have dU: "distinct U"
  proof -
    have "distinct (map uniqueID [g1 ..< g1 + length ?moved])"
      by (simp add: distinct_map inj_on_def uniqueID_inj)
    then have "distinct (map TaskUpdateProvenanceEvent.id U)" using ids by simp
    then show ?thesis by (simp add: distinct_map)
  qed
  have others: "\<forall>i<length U. i \<noteq> j \<longrightarrow> U ! i \<noteq> U ! j"
    using nth_eq_iff_index_eq[OF dU] j(1) len by simp
  have "map ?proj U ! j = map ?f ?moved ! j" by (simp only: U)
  then have "?proj (U ! j) = ?f (?moved ! j)"
    using j(1) len by simp
  then have fields: "TaskUpdateProvenanceEvent.entityID (U ! j) = TaskUpdateDeletedEvent.entityID de"
    "TaskUpdateProvenanceEvent.provenance (U ! j) = TaskIngestEvent.provenance ie"
    "TaskUpdateProvenanceEvent.timestampMillis (U ! j) = TaskIngestEvent.timestampMillis ie"
    using j(2) dk by simp_all
  have md: "\<And>p. p \<in> set ing \<Longrightarrow> TaskIngestEvent.metadata (snd p) = [(INGEST_ITEM_IDENTIFIER_KEY, fst p)]"
    using S(5) ingestedBy_fields(1) by blast
  have nometa: "list_all (\<lambda>p. TaskIngestEvent.metadata (snd p) \<noteq> [(INGEST_ITEM_IDENTIFIER_KEY, k)])
             (filter (\<lambda>p. fst p \<notin> fst ` set del) ing)"
    unfolding list_all_iff using md kd by auto
  have noie: "ie \<notin> snd ` set (filter (\<lambda>p. fst p \<notin> fst ` set del) ing)"
  proof
    assume "ie \<in> snd ` set (filter (\<lambda>p. fst p \<notin> fst ` set del) ing)"
    then obtain p where p: "p \<in> set ing" "fst p \<notin> fst ` set del" "snd p = ie" by auto
    from md[OF p(1)] md[OF kin] p(3) have "fst p = k" by simp
    with p(2) kd show False by simp
  qed
  have node: "de \<notin> snd ` set (filter (\<lambda>p. fst p \<notin> fst ` set ing) del)"
  proof
    assume "de \<in> snd ` set (filter (\<lambda>p. fst p \<notin> fst ` set ing) del)"
    then obtain p where p: "p \<in> set del" "fst p \<notin> fst ` set ing" "snd p = de" by auto
    have "distinct (map (TaskUpdateDeletedEvent.id \<circ> snd) del)"
      using S(8) by (simp add: deleteIdsBelow_def)
    then have "inj_on (TaskUpdateDeletedEvent.id \<circ> snd) (set del)" by (simp add: distinct_map)
    moreover have "(TaskUpdateDeletedEvent.id \<circ> snd) p = (TaskUpdateDeletedEvent.id \<circ> snd) (k, de)"
      using p(3) by simp
    ultimately have "p = (k, de)" using p(1) kde by (rule inj_onD)
    with p(2) ki show False by simp
  qed
  have stored: "list_ex (\<lambda>task. itemIdentifierOf task = Some k
                           \<and> Task.id task = TaskUpdateDeletedEvent.entityID de)
             (existingTasks store)"
  proof -
    from S(6)[OF kde]
    have "\<exists>task\<in>set (existingTasks store). itemIdentifierOf task = Some k
             \<and> Task.id task = TaskUpdateDeletedEvent.entityID de"
      unfolding deletedBy_def existingGroup_def by (auto simp: createDeleteTaskEvent_eq)
    then show ?thesis unfolding list_ex_iff .
  qed
  have jU: "j < length U" using j(1) len by simp
  have jk: "fst (?moved ! j) = k" using j(2) by simp
  have J: "\<exists>j<length U.
              fst (?moved ! j) = k
              \<and> (\<forall>i<length U. fst (?moved ! i) = k \<longrightarrow> i = j)
              \<and> (\<forall>i<length U. i \<noteq> j \<longrightarrow> U ! i \<noteq> U ! j)
              \<and> TaskUpdateProvenanceEvent.entityID (U ! j) = TaskUpdateDeletedEvent.entityID de
              \<and> TaskUpdateProvenanceEvent.provenance (U ! j) = TaskIngestEvent.provenance ie
              \<and> TaskUpdateProvenanceEvent.timestampMillis (U ! j) = TaskIngestEvent.timestampMillis ie"
    apply (rule exI[of _ j])
    apply (intro conjI)
          apply (rule jU)
         apply (rule jk)
        apply (rule uniq)
       apply (rule others)
      apply (rule fields(1))
     apply (rule fields(2))
    apply (rule fields(3))
    done
  show ?thesis
    apply (rule exI[of _ U])
    apply (intro conjI)
         apply (rule res)
        apply (rule len)
       apply (rule J)
       apply (rule nometa)
      apply (rule noie)
     apply (rule node)
    apply (rule stored)
    done
qed

theorem move_replaces_ingest_and_delete_witness:
  "ingestSources_loop (groupEntitiesByProvenanceIdentifiers (existingTasks storeWithMovedTask))
       (ingestDateMillis sampleOptions) [sampleSource ''A'' [], sampleSource ''B'' [''x'']] ([], [], 0)
     = Inr ([(''x'', \<lparr>TaskIngestEvent.id = ''uid:+'', spec = ''spec'', entityID = ''uid:++'',
                     timestampMillis = 1000, metadata = [(''ingestSourceIdentifier'', ''x'')],
                     provenance = \<lparr>TaskProvenance.identifier = ''B'', title = ''title'', url = None,
                                   colorPaletteName = None\<rparr>\<rparr>)],
            [(''x'', \<lparr>TaskUpdateDeletedEvent.id = ''uid:'', entityID = ''tx'',
                     timestampMillis = 1000, isDeleted = True\<rparr>)], 3)
   \<and> fst (ingestSources [sampleSource ''A'' [], sampleSource ''B'' [''x'']] storeWithMovedTask
            sampleOptions 0)
     = Inr [TaskUpdateProvenance
              \<lparr>TaskUpdateProvenanceEvent.id = ''uid:+++'', entityID = ''tx'', timestampMillis = 1000,
               provenance = \<lparr>TaskProvenance.identifier = ''B'', title = ''title'', url = None,
                             colorPaletteName = None\<rparr>\<rparr>]"
proof -
  let ?ie = "\<lparr>TaskIngestEvent.id = ''uid:+'', spec = ''spec'', entityID = ''uid:++'',
                     timestampMillis = 1000, metadata = [(''ingestSourceIdentifier'', ''x'')],
                     provenance = \<lparr>TaskProvenance.identifier = ''B'', title = ''title'', url = None,
                                   colorPaletteName = None\<rparr>\<rparr>"
  let ?de = "\<lparr>TaskUpdateDeletedEvent.id = ''uid:'', entityID = ''tx'',
                     timestampMillis = 1000, isDeleted = True\<rparr>"
  have h1: "ingestSources_loop (groupEntitiesByProvenanceIdentifiers (existingTasks storeWithMovedTask))
       (ingestDateMillis sampleOptions) [sampleSource ''A'' [], sampleSource ''B'' [''x'']] ([], [], 0)
     = Inr ([(''x'', ?ie)], [(''x'', ?de)], 3)"
    by (simp add: storeWithMovedTask_def sample_defs ingest_eval existingTasks_def numeral_3_eq_3)
  have h2: "map_of [(''x'', ?ie)] ''x'' = Some ?ie" by simp
  have h3: "map_of [(''x'', ?de)] ''x'' = Some ?de" by simp
  from move_replaces_ingest_and_delete[OF h1 h2 h3] obtain U where
    r: "fst (ingestSources [sampleSource ''A'' [], sampleSource ''B'' [''x'']] storeWithMovedTask
            sampleOptions 0)
        = Inr (map (TaskIngest \<circ> snd) (filter (\<lambda>p. fst p \<notin> fst ` set [(''x'', ?de)]) [(''x'', ?ie)])
                @ map (TaskUpdateDeleted \<circ> snd) (filter (\<lambda>p. fst p \<notin> fst ` set [(''x'', ?ie)]) [(''x'', ?de)])
                @ map TaskUpdateProvenance U)"
    by blast
  have e: "fst (ingestSources [sampleSource ''A'' [], sampleSource ''B'' [''x'']] storeWithMovedTask
            sampleOptions 0)
     = Inr [TaskUpdateProvenance
              \<lparr>TaskUpdateProvenanceEvent.id = ''uid:+++'', entityID = ''tx'', timestampMillis = 1000,
               provenance = \<lparr>TaskProvenance.identifier = ''B'', title = ''title'', url = None,
                             colorPaletteName = None\<rparr>\<rparr>]"
    by (simp add: storeWithMovedTask_def sample_defs ingest_eval)
  from h1 e r show ?thesis by simp
qed






text \<open>
  C7, as stated, fails: source B matches no existing group, and its item x yields no
  TaskIngestEvent; the key is computed for deletion from source A in the same run, so the
  call returns a provenance update instead.
\<close>

theorem new_source_items_counterexample:
  "existingGroup (existingTasks storeWithMovedTask) ''B'' = []
   \<and> items (sampleSource ''B'' [''x'']) = [\<lparr>IngestibleItem.identifier = ''x'', spec = ''spec''\<rparr>]
   \<and> fst (ingestSources [sampleSource ''A'' [], sampleSource ''B'' [''x'']]
            storeWithMovedTask sampleOptions 0)
     = Inr [TaskUpdateProvenance
              \<lparr>TaskUpdateProvenanceEvent.id = ''uid:+++'', entityID = ''tx'', timestampMillis = 1000,
               provenance = \<lparr>TaskProvenance.identifier = ''B'', title = ''title'', url = None,
                             colorPaletteName = None\<rparr>\<rparr>]
   \<and> ingestEventsOf [TaskUpdateProvenance
              \<lparr>TaskUpdateProvenanceEvent.id = ''uid:+++'', entityID = ''tx'', timestampMillis = 1000,
               provenance = \<lparr>TaskProvenance.identifier = ''B'', title = ''title'', url = None,
                             colorPaletteName = None\<rparr>\<rparr>] = []"
  by (simp add: storeWithMovedTask_def sample_defs ingest_eval existingTasks_def
        existingGroup_def hasProvenanceIdentifier_def)

text \<open>
  C7, amended. In a call that returns events, for an incoming source \<open>S\<close> that matches no
  existing group and an item of \<open>S\<close> whose identifier is not computed for deletion from a
  source of the call (the item is not a move, C2): when no other item of \<open>S\<close> and no other
  source of the call presents that identifier, the item yields exactly one TaskIngestEvent.
  That event carries the item's spec; its metadata maps "ingestSourceIdentifier" to the
  item's identifier; its timestamp is the ingest date; its event id and entity id are two
  consecutive draws of the generator made during the call, and the entity ids (and the event
  ids) of all returned ingest events are pairwise distinct; its provenance carries the
  identifier and title of \<open>S\<close>, and its url and colour palette name exactly when they are
  set (non-empty) on \<open>S\<close>. Nothing is said of an identifier that several items of the call
  share.
\<close>

theorem new_source_items_are_ingested:
  assumes ok: "fst (ingestSources sources store opts g) = Inr evs"
    and S: "S \<in> set sources"
    and new: "existingGroup (existingTasks store) (IngestibleSource.identifier S) = []"
    and it: "filter (\<lambda>it'. IngestibleItem.identifier it' = IngestibleItem.identifier it) (items S)
               = [it]"
    and other: "\<forall>S'\<in>set sources. IngestibleItem.identifier it \<in> incomingKeys S' \<longrightarrow> S' = S"
    and nomove: "IngestibleItem.identifier it \<notin> (\<Union>S'\<in>set sources.
                   existingKeys (existingGroup (existingTasks store) (IngestibleSource.identifier S'))
                   - incomingKeys S')"
  shows "\<exists>e. filter (\<lambda>e'. TaskIngestEvent.metadata e'
                        = [(INGEST_ITEM_IDENTIFIER_KEY, IngestibleItem.identifier it)])
                (ingestEventsOf evs) = [e]
           \<and> TaskIngestEvent.spec e = IngestibleItem.spec it
           \<and> TaskIngestEvent.timestampMillis e = ingestDateMillis opts
           \<and> (\<exists>n\<ge>g. TaskIngestEvent.id e = uniqueID n \<and> TaskIngestEvent.entityID e = uniqueID (Suc n))
           \<and> TaskProvenance.identifier (TaskIngestEvent.provenance e) = IngestibleSource.identifier S
           \<and> TaskProvenance.title (TaskIngestEvent.provenance e) = IngestibleSource.title S
           \<and> TaskProvenance.url (TaskIngestEvent.provenance e) = truthyOpt (IngestibleSource.url S)
           \<and> TaskProvenance.colorPaletteName (TaskIngestEvent.provenance e)
               = truthyOpt (IngestibleSource.colorPaletteName S)
           \<and> distinct (map TaskIngestEvent.entityID (ingestEventsOf evs))
           \<and> distinct (map TaskIngestEvent.id (ingestEventsOf evs))"
proof -
  let ?k = "IngestibleItem.identifier it"
  from ingestSources_Inr_loop[OF ok] obtain ing del g1 where
    loop: "ingestSources_loop (groupEntitiesByProvenanceIdentifiers (existingTasks store))
         (ingestDateMillis opts) sources ([], [], g) = Inr (ing, del, g1)" by blast
  note L = loop_start[OF loop]
  from ingestSources_of_loop[OF loop, THEN conjunct2, THEN conjunct2] obtain U where
    res: "fst (ingestSources sources store opts g) =
           Inr (map (TaskIngest \<circ> snd) (filter (\<lambda>p. fst p \<notin> fst ` set del) ing)
                @ map (TaskUpdateDeleted \<circ> snd) (filter (\<lambda>p. fst p \<notin> fst ` set ing) del)
                @ map TaskUpdateProvenance U)"
    by (elim exE conjE) (rule that)
  have evs: "ingestEventsOf evs = map snd (filter (\<lambda>p. fst p \<notin> fst ` set del) ing)"
    using res ok
    by (simp add: ingestEventsOf_append ingestEventsOf_ingest ingestEventsOf_deleted
          ingestEventsOf_provenance)
  have "it \<in> set (filter (\<lambda>it'. IngestibleItem.identifier it' = ?k) (items S))"
    unfolding it by simp
  then have itS: "it \<in> set (items S)" by simp
  have "?k \<in> incomingKeys S - existingKeys (existingGroup (existingTasks store) (IngestibleSource.identifier S))"
    using itS new by (simp add: incomingKeys_def existingKeys_Nil)
  then have kin: "?k \<in> fst ` set ing" unfolding L(3) using S by blast
  have kd: "?k \<notin> fst ` set del" unfolding L(4) using nomove by simp
  from kin obtain e where e: "(?k, e) \<in> set ing" by auto
  have eI: "(?k, e) \<in> set (filter (\<lambda>p. fst p \<notin> fst ` set del) ing)" using e kd by simp
  have dI: "distinct (map fst (filter (\<lambda>p. fst p \<notin> fst ` set del) ing))"
    using L(1) by (rule distinct_map_filter)
  have md: "\<And>p. p \<in> set ing \<Longrightarrow> TaskIngestEvent.metadata (snd p) = [(INGEST_ITEM_IDENTIFIER_KEY, fst p)]"
    using L(5) ingestedBy_fields(1) by blast
  have "filter (\<lambda>e'. TaskIngestEvent.metadata e' = [(INGEST_ITEM_IDENTIFIER_KEY, ?k)])
          (map snd (filter (\<lambda>p. fst p \<notin> fst ` set del) ing))
        = map snd (filter (\<lambda>p. TaskIngestEvent.metadata (snd p) = [(INGEST_ITEM_IDENTIFIER_KEY, ?k)])
                     (filter (\<lambda>p. fst p \<notin> fst ` set del) ing))"
    by (simp add: filter_map comp_def)
  also have "filter (\<lambda>p. TaskIngestEvent.metadata (snd p) = [(INGEST_ITEM_IDENTIFIER_KEY, ?k)])
                     (filter (\<lambda>p. fst p \<notin> fst ` set del) ing)
           = filter (\<lambda>p. fst p = ?k) (filter (\<lambda>p. fst p \<notin> fst ` set del) ing)"
    by (rule filter_cong) (auto simp: md)
  also have "filter (\<lambda>p. fst p = ?k) (filter (\<lambda>p. fst p \<notin> fst ` set del) ing) = [(?k, e)]"
    using dI eI by (rule filter_key_distinct)
  finally have one: "filter (\<lambda>e'. TaskIngestEvent.metadata e' = [(INGEST_ITEM_IDENTIFIER_KEY, ?k)])
          (ingestEventsOf evs) = [e]"
    unfolding evs by simp
  note F = ingestedBy_fields[OF L(5)[OF e]]
  have ts: "TaskIngestEvent.timestampMillis e = ingestDateMillis opts" using F(2) by simp
  have gen: "\<exists>n\<ge>g. TaskIngestEvent.id e = uniqueID n \<and> TaskIngestEvent.entityID e = uniqueID (Suc n)"
    using F(3) by simp
  have "\<exists>S'\<in>set sources. \<exists>it'\<in>set (items S').
                  IngestibleItem.identifier it' = ?k
                  \<and> TaskIngestEvent.spec e = IngestibleItem.spec it'
                  \<and> TaskIngestEvent.provenance e = provenanceOfSource S'"
    using F(4) by simp
  then obtain S' it' where h: "S' \<in> set sources" "it' \<in> set (items S')"
      "IngestibleItem.identifier it' = ?k" "TaskIngestEvent.spec e = IngestibleItem.spec it'"
      "TaskIngestEvent.provenance e = provenanceOfSource S'"
    by (elim bexE conjE) (rule that)
  have "IngestibleItem.identifier it' \<in> IngestibleItem.identifier ` set (items S')"
    using h(2) by (rule imageI)
  then have "?k \<in> incomingKeys S'" unfolding incomingKeys_def h(3) .
  with other h(1) have SS: "S' = S" by blast
  have "it' \<in> set (filter (\<lambda>it'. IngestibleItem.identifier it' = ?k) (items S))"
    using h(2,3) unfolding SS by simp
  then have ii: "it' = it" unfolding it by simp
  have sp: "TaskIngestEvent.spec e = IngestibleItem.spec it" using h(4) unfolding ii .
  have pr: "TaskIngestEvent.provenance e = provenanceOfSource S" using h(5) unfolding SS .
  have p1: "TaskProvenance.identifier (TaskIngestEvent.provenance e) = IngestibleSource.identifier S"
    and p2: "TaskProvenance.title (TaskIngestEvent.provenance e) = IngestibleSource.title S"
    and p3: "TaskProvenance.url (TaskIngestEvent.provenance e) = truthyOpt (IngestibleSource.url S)"
    and p4: "TaskProvenance.colorPaletteName (TaskIngestEvent.provenance e)
               = truthyOpt (IngestibleSource.colorPaletteName S)"
    unfolding pr by (simp_all add: provenanceOfSource_def)
  have "distinct (map (TaskIngestEvent.entityID \<circ> snd) ing)"
    "distinct (map (TaskIngestEvent.id \<circ> snd) ing)"
    using L(7) by (simp_all add: ingestIdsBelow_def)
  then have "distinct (map (TaskIngestEvent.entityID \<circ> snd) (filter (\<lambda>p. fst p \<notin> fst ` set del) ing))"
    "distinct (map (TaskIngestEvent.id \<circ> snd) (filter (\<lambda>p. fst p \<notin> fst ` set del) ing))"
    by (simp_all add: distinct_map_filter)
  then have d1: "distinct (map TaskIngestEvent.entityID (ingestEventsOf evs))"
    and d2: "distinct (map TaskIngestEvent.id (ingestEventsOf evs))"
    unfolding evs by simp_all
  show ?thesis
    apply (rule exI[of _ e])
    apply (intro conjI)
             apply (rule one)
            apply (rule sp)
           apply (rule ts)
          apply (rule gen)
         apply (rule p1)
        apply (rule p2)
       apply (rule p3)
      apply (rule p4)
     apply (rule d1)
    apply (rule d2)
    done
qed

theorem new_source_items_are_ingested_witness:
  "fst (ingestSources [sourceWithUrl] (sampleStore []) sampleOptions 0)
     = Inr [TaskIngest \<lparr>TaskIngestEvent.id = ''uid:'', spec = ''spec-p'', entityID = ''uid:+'',
                     timestampMillis = 1000, metadata = [(''ingestSourceIdentifier'', ''p'')],
                     provenance = \<lparr>TaskProvenance.identifier = ''N'', title = ''Notes'',
                                   url = Some ''http://example.com'', colorPaletteName = None\<rparr>\<rparr>,
            TaskIngest \<lparr>TaskIngestEvent.id = ''uid:++'', spec = ''spec-q'', entityID = ''uid:+++'',
                     timestampMillis = 1000, metadata = [(''ingestSourceIdentifier'', ''q'')],
                     provenance = \<lparr>TaskProvenance.identifier = ''N'', title = ''Notes'',
                                   url = Some ''http://example.com'', colorPaletteName = None\<rparr>\<rparr>]
   \<and> existingGroup (existingTasks (sampleStore [])) (IngestibleSource.identifier sourceWithUrl) = []
   \<and> (\<exists>e. filter (\<lambda>e'. TaskIngestEvent.metadata e' = [(INGEST_ITEM_IDENTIFIER_KEY, ''p'')])
              (ingestEventsOf
                 [TaskIngest \<lparr>TaskIngestEvent.id = ''uid:'', spec = ''spec-p'', entityID = ''uid:+'',
                     timestampMillis = 1000, metadata = [(''ingestSourceIdentifier'', ''p'')],
                     provenance = \<lparr>TaskProvenance.identifier = ''N'', title = ''Notes'',
                                   url = Some ''http://example.com'', colorPaletteName = None\<rparr>\<rparr>,
                  TaskIngest \<lparr>TaskIngestEvent.id = ''uid:++'', spec = ''spec-q'', entityID = ''uid:+++'',
                     timestampMillis = 1000, metadata = [(''ingestSourceIdentifier'', ''q'')],
                     provenance = \<lparr>TaskProvenance.identifier = ''N'', title = ''Notes'',
                                   url = Some ''http://example.com'', colorPaletteName = None\<rparr>\<rparr>]) = [e]
            \<and> TaskIngestEvent.spec e = ''spec-p''
            \<and> TaskIngestEvent.timestampMillis e = 1000
            \<and> TaskProvenance.url (TaskIngestEvent.provenance e) = Some ''http://example.com''
            \<and> TaskProvenance.colorPaletteName (TaskIngestEvent.provenance e) = None)"
proof -
  let ?it = "\<lparr>IngestibleItem.identifier = ''p'', spec = ''spec-p''\<rparr>"
  let ?evs = "[TaskIngest \<lparr>TaskIngestEvent.id = ''uid:'', spec = ''spec-p'', entityID = ''uid:+'',
                     timestampMillis = 1000, metadata = [(''ingestSourceIdentifier'', ''p'')],
                     provenance = \<lparr>TaskProvenance.identifier = ''N'', title = ''Notes'',
                                   url = Some ''http://example.com'', colorPaletteName = None\<rparr>\<rparr>,
            TaskIngest \<lparr>TaskIngestEvent.id = ''uid:++'', spec = ''spec-q'', entityID = ''uid:+++'',
                     timestampMillis = 1000, metadata = [(''ingestSourceIdentifier'', ''q'')],
                     provenance = \<lparr>TaskProvenance.identifier = ''N'', title = ''Notes'',
                                   url = Some ''http://example.com'', colorPaletteName = None\<rparr>\<rparr>]"
  have ok: "fst (ingestSources [sourceWithUrl] (sampleStore []) sampleOptions 0) = Inr ?evs"
    by (simp add: sourceWithUrl_def sample_defs ingest_eval)
  have S: "sourceWithUrl \<in> set [sourceWithUrl]" by simp
  have ents: "existingTasks (sampleStore []) = []"
    by (simp add: sampleStore_def existingTasks_def listEntities_def)
  have new: "existingGroup (existingTasks (sampleStore [])) (IngestibleSource.identifier sourceWithUrl) = []"
    by (simp add: ents existingGroup_def)
  have it: "filter (\<lambda>it'. IngestibleItem.identifier it' = IngestibleItem.identifier ?it)
               (items sourceWithUrl) = [?it]"
    by (simp add: sourceWithUrl_def)
  have other: "\<forall>S'\<in>set [sourceWithUrl].
                 IngestibleItem.identifier ?it \<in> incomingKeys S' \<longrightarrow> S' = sourceWithUrl"
    by simp
  have nomove: "IngestibleItem.identifier ?it \<notin> (\<Union>S'\<in>set [sourceWithUrl].
                   existingKeys (existingGroup (existingTasks (sampleStore [])) (IngestibleSource.identifier S'))
                   - incomingKeys S')"
    by (simp add: ents existingGroup_def existingKeys_def List.map_filter_simps)
  from new_source_items_are_ingested[OF ok S new it other nomove]
  obtain e where
    e: "filter (\<lambda>e'. TaskIngestEvent.metadata e'
                        = [(INGEST_ITEM_IDENTIFIER_KEY, IngestibleItem.identifier ?it)])
                (ingestEventsOf ?evs) = [e]"
       "TaskIngestEvent.spec e = IngestibleItem.spec ?it"
       "TaskIngestEvent.timestampMillis e = ingestDateMillis sampleOptions"
       "TaskProvenance.url (TaskIngestEvent.provenance e) = truthyOpt (IngestibleSource.url sourceWithUrl)"
       "TaskProvenance.colorPaletteName (TaskIngestEvent.provenance e)
               = truthyOpt (IngestibleSource.colorPaletteName sourceWithUrl)"
    by (elim exE conjE) (rule that)
  have e1: "filter (\<lambda>e'. TaskIngestEvent.metadata e' = [(INGEST_ITEM_IDENTIFIER_KEY, ''p'')])
          (ingestEventsOf ?evs) = [e]"
    using e(1) by simp
  have e2: "TaskIngestEvent.spec e = ''spec-p''" using e(2) by simp
  have e3: "TaskIngestEvent.timestampMillis e = 1000" using e(3) by (simp add: sampleOptions_def)
  have e4: "TaskProvenance.url (TaskIngestEvent.provenance e) = Some ''http://example.com''"
    using e(4) by (simp add: sourceWithUrl_def truthy_def)
  have e5: "TaskProvenance.colorPaletteName (TaskIngestEvent.provenance e) = None"
    using e(5) by (simp add: sourceWithUrl_def truthy_def)
  have ex: "\<exists>e. filter (\<lambda>e'. TaskIngestEvent.metadata e' = [(INGEST_ITEM_IDENTIFIER_KEY, ''p'')])
          (ingestEventsOf ?evs) = [e]
            \<and> TaskIngestEvent.spec e = ''spec-p''
            \<and> TaskIngestEvent.timestampMillis e = 1000
            \<and> TaskProvenance.url (TaskIngestEvent.provenance e) = Some ''http://example.com''
            \<and> TaskProvenance.colorPaletteName (TaskIngestEvent.provenance e) = None"
    apply (rule exI[of _ e])
    apply (intro conjI)
        apply (rule e1)
       apply (rule e2)
      apply (rule e3)
     apply (rule e4)
    apply (rule e5)
    done
  from ok new ex show ?thesis by (intro conjI)
qed

lemmas backend_eval = derivedRowsOfTask_def databaseAfterUpdate_def databaseAfterInsert_def
  putEntities_def testTasks_def updatedRecord_def createTestTask_def modifyEntities_def
  getEntities_def commitRecord_def project_def applyDelta_def emptyDatabase_def
  List.map_filter_simps Let_def

lemma rows_key: "p \<in> set (taskComponentRows e) \<Longrightarrow> fst (fst p) = entityIDOf e"
  by (cases e) (auto split: if_splits)

lemma distinct_keyed_rows:
  "distinct (map fst al) \<Longrightarrow> distinct (map fst (map (\<lambda>(c, s). ((i, c), f c s)) al))"
  by (induction al) (auto simp: image_iff)

lemma rows_distinct: "distinct (map fst (taskComponentRows e))"
proof (cases e)
  case (TaskEntity t)
  show ?thesis
    unfolding TaskEntity taskComponentRows.simps
    using distinct_keyed_rows[OF distinct_clearjunk[of "componentStates t"], of "Task.id t"
        "\<lambda>c s. \<lparr>taskID = Task.id t, componentID = c,
                 dueTimestampMillis = ComponentSchedulingState.dueTimestampMillis s\<rparr>"]
    by (simp del: map_map)
next
  case (AttachmentReferenceEntity a)
  then show ?thesis by simp
qed

lemma map_of_keyed_rows:
  "map_of (map (\<lambda>(c, s). ((i, c), f c s)) al) (i, c') = map_option (f c') (map_of al c')"
  by (induction al) auto

lemma rows_lookup:
  "map_of (taskComponentRows e) (entityIDOf e, c) =
     (case e of
        AttachmentReferenceEntity a \<Rightarrow> None
      | TaskEntity task \<Rightarrow>
          (if Task.isDeleted task then None
           else map_option
                  (\<lambda>s. \<lparr>taskID = Task.id task, componentID = c,
                        dueTimestampMillis = ComponentSchedulingState.dueTimestampMillis s\<rparr>)
                  (map_of (componentStates task) c)))"
proof (cases e)
  case (TaskEntity t)
  show ?thesis
    unfolding TaskEntity
    using map_of_keyed_rows[of "Task.id t"
        "\<lambda>c s. \<lparr>taskID = Task.id t, componentID = c,
                 dueTimestampMillis = ComponentSchedulingState.dueTimestampMillis s\<rparr>"
        "AList.clearjunk (componentStates t)" c]
    by (simp add: map_of_clearjunk)
next
  case (AttachmentReferenceEntity a)
  then show ?thesis by simp
qed

lemma expectedRow_rows:
  assumes "keyedByEntityID db"
  shows "expectedRow db t c =
           (case map_of (entities db) t of
              None \<Rightarrow> None
            | Some r \<Rightarrow> map_of (taskComponentRows (entity r)) (t, c))"
proof (cases "map_of (entities db) t")
  case None
  then show ?thesis by (simp add: expectedRow_def)
next
  case (Some r)
  then have "(t, r) \<in> set (entities db)" by (rule map_of_SomeD)
  with assms have k: "entityIDOf (entity r) = t" unfolding keyedByEntityID_def by force
  show ?thesis
    using Some rows_lookup[of "entity r" c] unfolding k
    by (cases "entity r") (simp_all add: expectedRow_def k[symmetric])
qed

lemma map_of_fold_delete:
  "map_of (fold AList.delete ks al) k = (if k \<in> set ks then None else map_of al k)"
  by (induction ks arbitrary: al) (auto simp: delete_conv')

lemma distinct_fold_delete:
  "distinct (map fst al) \<Longrightarrow> distinct (map fst (fold AList.delete ks al))"
  by (induction ks arbitrary: al) (auto simp: distinct_delete)

lemma map_of_fold_update:
  "distinct (map fst us) \<Longrightarrow>
   map_of (fold (\<lambda>(k, r). AList.update k r) us al) k =
     (case map_of us k of None \<Rightarrow> map_of al k | Some v \<Rightarrow> Some v)"
proof (induction us arbitrary: al)
  case Nil
  then show ?case by simp
next
  case (Cons u us)
  obtain k' v' where u: "u = (k', v')" by (cases u)
  from Cons.prems u have d: "distinct (map fst us)" and n: "k' \<notin> fst ` set us" by auto
  have none: "map_of us k' = None" using n by (simp add: map_of_eq_None_iff)
  show ?case
    using Cons.IH[OF d, of "AList.update k' v' al"] u none
    by (auto simp: update_conv' split: option.splits)
qed

lemma distinct_fold_update:
  "distinct (map fst al) \<Longrightarrow> distinct (map fst (fold (\<lambda>(k, r). AList.update k r) us al))"
  by (induction us arbitrary: al) (auto simp: distinct_update)

lemma applyDelta_distinct:
  "distinct (map fst table) \<Longrightarrow> distinct (map fst (applyDelta delta table))"
  unfolding applyDelta_def by (intro distinct_fold_update distinct_fold_delete)

lemma project_apply_lookup:
  assumes dP: "distinct (map fst P)" and dN: "distinct (map fst N)"
  shows "map_of (fold (\<lambda>(k, r). AList.update k r) (filter (\<lambda>r. r \<notin> set P) N)
                   (fold AList.delete (filter (\<lambda>k. k \<notin> fst ` set N) (map fst P)) d)) k
         = (case map_of N k of
              Some v \<Rightarrow> (if (k, v) \<in> set P then map_of d k else Some v)
            | None \<Rightarrow> (if k \<in> fst ` set P then None else map_of d k))"
proof -
  let ?U = "filter (\<lambda>r. r \<notin> set P) N"
  let ?D = "filter (\<lambda>k. k \<notin> fst ` set N) (map fst P)"
  have dU: "distinct (map fst ?U)" using dN by (rule distinct_map_filter)
  have s1: "map_of (fold (\<lambda>(k, r). AList.update k r) ?U (fold AList.delete ?D d)) k
         = (case map_of ?U k of None \<Rightarrow> map_of (fold AList.delete ?D d) k | Some v \<Rightarrow> Some v)"
    by (rule map_of_fold_update[OF dU])
  have s2: "map_of (fold AList.delete ?D d) k = (if k \<in> set ?D then None else map_of d k)"
    by (rule map_of_fold_delete)
  show ?thesis
  proof (cases "map_of N k")
    case None
    then have kN: "k \<notin> fst ` set N" by (simp add: map_of_eq_None_iff)
    then have "k \<notin> fst ` set ?U" by auto
    then have u0: "map_of ?U k = None" by (simp add: map_of_eq_None_iff)
    have d0: "k \<in> set ?D \<longleftrightarrow> k \<in> fst ` set P" using kN by auto
    show ?thesis unfolding s1 s2 u0 d0 using None by simp
  next
    case (Some v)
    then have kv: "(k, v) \<in> set N" by (rule map_of_SomeD)
    then have kD: "k \<notin> set ?D" by force
    show ?thesis
    proof (cases "(k, v) \<in> set P")
      case True
      have "k \<notin> fst ` set ?U"
      proof
        assume "k \<in> fst ` set ?U"
        then obtain v' where v': "(k, v') \<in> set N" "(k, v') \<notin> set P" by auto
        from dN v'(1) kv have "v' = v" by (meson eq_key_imp_eq_value)
        with v'(2) True show False by simp
      qed
      then have u0: "map_of ?U k = None" by (simp add: map_of_eq_None_iff)
      have d0: "k \<in> set ?D \<longleftrightarrow> False" using kD by blast
      show ?thesis unfolding s1 s2 u0 d0 using Some True by simp
    next
      case False
      then have "(k, v) \<in> set ?U" using kv by simp
      then have u0: "map_of ?U k = Some v" using dU by simp
      show ?thesis unfolding s1 u0 using Some False by simp
    qed
  qed
qed

lemma commitRecord_keyed:
  assumes "keyedByEntityID db"
  shows "keyedByEntityID (commitRecord db r)"
proof -
  have "set (AList.update (entityIDOf (entity r)) r (entities db))
          \<subseteq> insert (entityIDOf (entity r), r) (set (entities db))"
    by (rule set_update_subset)
  then show ?thesis
    using assms unfolding keyedByEntityID_def commitRecord_def Let_def by auto
qed

lemma commitRecord_entities:
  "map_of (entities (commitRecord db r)) t =
     (if t = entityIDOf (entity r) then Some r else map_of (entities db) t)"
  by (simp add: commitRecord_def Let_def update_conv')

lemma commitRecord_consistent:
  assumes keyed: "keyedByEntityID db" and cons: "derivedConsistent db"
  shows "derivedConsistent (commitRecord db r)"
proof -
  let ?i = "entityIDOf (entity r)"
  let ?db' = "commitRecord db r"
  define P where "P = (case map_option entity (map_of (entities db) ?i) of
                         None \<Rightarrow> [] | Some p \<Rightarrow> taskComponentRows p)"
  define N where "N = taskComponentRows (entity r)"
  define d where "d = derived_taskComponents db"
  define same where "same \<longleftrightarrow> map_option entity (map_of (entities db) ?i) = Some (entity r)"
  define d' where "d' = fold (\<lambda>(k, r). AList.update k r) (filter (\<lambda>r. r \<notin> set P) N)
              (fold AList.delete (filter (\<lambda>k. k \<notin> fst ` set N) (map fst P)) d)"
  have keyed': "keyedByEntityID ?db'" using keyed by (rule commitRecord_keyed)
  have dd: "distinct (map fst d)" and look: "\<And>t c. map_of d (t, c) = expectedRow db t c"
    using cons by (simp_all add: derivedConsistent_def d_def)
  have dP: "distinct (map fst P)"
    unfolding P_def by (cases "map_of (entities db) ?i") (simp_all add: rows_distinct)
  have dN: "distinct (map fst N)" unfolding N_def by (rule rows_distinct)
  have keyP: "\<And>p. p \<in> set P \<Longrightarrow> fst (fst p) = ?i"
  proof -
    fix p assume p: "p \<in> set P"
    then obtain r' where r': "map_of (entities db) ?i = Some r'" "p \<in> set (taskComponentRows (entity r'))"
      unfolding P_def by (cases "map_of (entities db) ?i") auto
    from r'(1) have "(?i, r') \<in> set (entities db)" by (rule map_of_SomeD)
    with keyed have "entityIDOf (entity r') = ?i" unfolding keyedByEntityID_def by force
    with rows_key[OF r'(2)] show "fst (fst p) = ?i" by simp
  qed
  have keyN: "\<And>p. p \<in> set N \<Longrightarrow> fst (fst p) = ?i" unfolding N_def by (rule rows_key)
  have oldP: "\<And>c. map_of d (?i, c) = map_of P (?i, c)"
    unfolding look expectedRow_rows[OF keyed] P_def
    by (cases "map_of (entities db) ?i") simp_all
  have samePN: "same \<Longrightarrow> P = N"
  proof -
    assume "same"
    then have e: "map_option entity (map_of (entities db) ?i) = Some (entity r)"
      by (simp only: same_def)
    show "P = N" unfolding P_def N_def e by simp
  qed
  have sel: "\<And>a b. derived_taskComponents (db\<lparr>entities := a, derived_taskComponents := b\<rparr>) = b"
    by simp
  have up: "\<And>u d. upserts \<lparr>upserts = u, deletes = d\<rparr> = u" by simp
  have de: "\<And>u d. deletes \<lparr>upserts = u, deletes = d\<rparr> = d" by simp
  have derived': "derived_taskComponents ?db' = (if same then d else d')"
    unfolding d'_def P_def N_def d_def same_def
    by (simp only: commitRecord_def Let_def applyDelta_def project_def sel up de)
  have dd': "distinct (map fst d')"
    unfolding d'_def using dd by (intro distinct_fold_update distinct_fold_delete)
  have dist': "distinct (map fst (derived_taskComponents ?db'))"
    unfolding derived' using dd dd' by simp
  have exp': "\<And>t c. expectedRow ?db' t c =
                 (if t = ?i then map_of N (?i, c) else expectedRow db t c)"
    unfolding expectedRow_rows[OF keyed'] expectedRow_rows[OF keyed] commitRecord_entities N_def
    by simp
  have L: "\<And>k. map_of d' k
         = (case map_of N k of
              Some v \<Rightarrow> (if (k, v) \<in> set P then map_of d k else Some v)
            | None \<Rightarrow> (if k \<in> fst ` set P then None else map_of d k))"
    unfolding d'_def by (rule project_apply_lookup[OF dP dN])
  have "map_of (derived_taskComponents ?db') (t, c) = expectedRow ?db' t c" for t c
  proof (cases same)
    case True
    have dv: "derived_taskComponents ?db' = d" unfolding derived' using True by simp
    show ?thesis
    proof (cases "t = ?i")
      case eq: True
      show ?thesis unfolding dv exp' eq using oldP[of c] samePN[OF True] by simp
    next
      case False
      then show ?thesis unfolding dv exp' using look[of t c] by simp
    qed
  next
    case False
    have dv: "derived_taskComponents ?db' = d'" unfolding derived' using False by simp
    show ?thesis
    proof (cases "t = ?i")
      case ne: False
      have "(t, c) \<notin> fst ` set N" using keyN ne by force
      then have n0: "map_of N (t, c) = None" by (simp add: map_of_eq_None_iff)
      have p0: "(t, c) \<notin> fst ` set P" using keyP ne by force
      show ?thesis unfolding dv L n0 exp' using p0 ne look[of t c] by simp
    next
      case eq: True
      show ?thesis
      proof (cases "map_of N (?i, c)")
        case None
        show ?thesis
        proof (cases "(?i, c) \<in> fst ` set P")
          case True
          then show ?thesis unfolding dv L exp' eq using None by simp
        next
          case False
          then have "map_of P (?i, c) = None" by (simp add: map_of_eq_None_iff)
          then show ?thesis unfolding dv L exp' eq using None False oldP[of c] by simp
        qed
      next
        case (Some v)
        show ?thesis
        proof (cases "((?i, c), v) \<in> set P")
          case True
          then have "map_of P (?i, c) = Some v" using dP by simp
          then show ?thesis unfolding dv L exp' eq using Some True oldP[of c] by simp
        next
          case False
          then show ?thesis unfolding dv L exp' eq using Some by simp
        qed
      qed
    qed
  qed
  with dist' show ?thesis by (simp add: derivedConsistent_def)
qed

lemma foldl_commitRecord_invariant:
  "keyedByEntityID db \<Longrightarrow> derivedConsistent db \<Longrightarrow>
   keyedByEntityID (foldl commitRecord db rs) \<and> derivedConsistent (foldl commitRecord db rs)"
proof (induction rs arbitrary: db)
  case Nil
  then show ?case by simp
next
  case (Cons r rs)
  have "keyedByEntityID (commitRecord db r)" using Cons.prems(1) by (rule commitRecord_keyed)
  moreover have "derivedConsistent (commitRecord db r)"
    using Cons.prems by (rule commitRecord_consistent)
  ultimately show ?case using Cons.IH by simp
qed

lemma reachable_invariant: "reachable db \<Longrightarrow> keyedByEntityID db \<and> derivedConsistent db"
proof (induction rule: reachable.induct)
  case reachable_empty
  show ?case
    by (simp add: keyedByEntityID_def derivedConsistent_def expectedRow_def emptyDatabase_def)
next
  case (reachable_modify db idsToLock transform)
  then show ?case unfolding modifyEntities_def by (intro foldl_commitRecord_invariant) simp_all
qed

lemma filter_key_none:
  "map_of al k = None \<Longrightarrow> filter (\<lambda>p. fst p = k) al = []"
  by (auto simp: filter_empty_conv map_of_eq_None_iff rev_image_eqI)

text \<open>
  C4: in every database that committed \<open>modifyEntities\<close> calls produce from the empty one,
  for every stored task that is not deleted and every component of it the derived table
  holds exactly one row under the key of that task and component, and its fields are the
  task's id, the component's id and the component's due time; under every other key (a
  removed component, a deleted task, an entity of another type, no entity) it holds no
  row. Inserting the three test tasks gives for task a the two rows due at 50, and the
  update that removes component b and moves the due time to 300 leaves the single row of
  component a due at 300.
\<close>

theorem derived_rows_consistent:
  "(reachable db \<longrightarrow>
      derivedConsistent db
      \<and> (\<forall>t c. filter (\<lambda>p. fst p = (t, c)) (derived_taskComponents db)
                 = (case expectedRow db t c of None \<Rightarrow> [] | Some row \<Rightarrow> [((t, c), row)])))
   \<and> derivedRowsOfTask ''a'' databaseAfterInsert
       = [\<lparr>taskID = ''a'', componentID = ''a'', dueTimestampMillis = 50\<rparr>,
          \<lparr>taskID = ''a'', componentID = ''b'', dueTimestampMillis = 50\<rparr>]
   \<and> derivedRowsOfTask ''a'' databaseAfterUpdate
       = [\<lparr>taskID = ''a'', componentID = ''a'', dueTimestampMillis = 300\<rparr>]"
proof (intro conjI impI allI)
  assume r: "reachable db"
  from reachable_invariant[OF r] show c: "derivedConsistent db" by simp
  fix t c
  from c have d: "distinct (map fst (derived_taskComponents db))"
    and l: "map_of (derived_taskComponents db) (t, c) = expectedRow db t c"
    by (simp_all add: derivedConsistent_def)
  show "filter (\<lambda>p. fst p = (t, c)) (derived_taskComponents db)
          = (case expectedRow db t c of None \<Rightarrow> [] | Some row \<Rightarrow> [((t, c), row)])"
  proof (cases "expectedRow db t c")
    case None
    then show ?thesis using l by (simp add: filter_key_none)
  next
    case (Some row)
    then have "((t, c), row) \<in> set (derived_taskComponents db)" using l by (simp add: map_of_SomeD)
    from filter_key_distinct[OF d this] show ?thesis using Some by simp
  qed
next
  show "derivedRowsOfTask ''a'' databaseAfterInsert
       = [\<lparr>taskID = ''a'', componentID = ''a'', dueTimestampMillis = 50\<rparr>,
          \<lparr>taskID = ''a'', componentID = ''b'', dueTimestampMillis = 50\<rparr>]"
    by (simp add: backend_eval)
  show "derivedRowsOfTask ''a'' databaseAfterUpdate
       = [\<lparr>taskID = ''a'', componentID = ''a'', dueTimestampMillis = 300\<rparr>]"
    by (simp add: backend_eval)
qed

theorem derived_rows_consistent_witness:
  "reachable databaseAfterUpdate
   \<and> derivedConsistent databaseAfterUpdate
   \<and> expectedRow databaseAfterUpdate ''a'' ''a''
       = Some \<lparr>taskID = ''a'', componentID = ''a'', dueTimestampMillis = 300\<rparr>
   \<and> expectedRow databaseAfterUpdate ''a'' ''b'' = None
   \<and> filter (\<lambda>p. fst p = (''a'', ''a'')) (derived_taskComponents databaseAfterUpdate)
       = [((''a'', ''a''), \<lparr>taskID = ''a'', componentID = ''a'', dueTimestampMillis = 300\<rparr>)]
   \<and> filter (\<lambda>p. fst p = (''a'', ''b'')) (derived_taskComponents databaseAfterUpdate) = []"
proof -
  have r: "reachable databaseAfterUpdate"
    unfolding databaseAfterUpdate_def databaseAfterInsert_def putEntities_def
    by (intro reachable.intros)
  have e1: "expectedRow databaseAfterUpdate ''a'' ''a''
       = Some \<lparr>taskID = ''a'', componentID = ''a'', dueTimestampMillis = 300\<rparr>"
    by (simp add: expectedRow_def backend_eval)
  have e2: "expectedRow databaseAfterUpdate ''a'' ''b'' = None"
    by (simp add: expectedRow_def backend_eval)
  note T = derived_rows_consistent[of databaseAfterUpdate, THEN conjunct1, rule_format, OF r]
  from T have c: "derivedConsistent databaseAfterUpdate" by (rule conjunct1)
  from T have f: "\<And>t c. filter (\<lambda>p. fst p = (t, c)) (derived_taskComponents databaseAfterUpdate)
                 = (case expectedRow databaseAfterUpdate t c of None \<Rightarrow> [] | Some row \<Rightarrow> [((t, c), row)])"
    by simp
  have f1: "filter (\<lambda>p. fst p = (''a'', ''a'')) (derived_taskComponents databaseAfterUpdate)
       = [((''a'', ''a''), \<lparr>taskID = ''a'', componentID = ''a'', dueTimestampMillis = 300\<rparr>)]"
    unfolding f e1 by simp
  have f2: "filter (\<lambda>p. fst p = (''a'', ''b'')) (derived_taskComponents databaseAfterUpdate) = []"
    unfolding f e2 by simp
  from r c e1 e2 f1 f2 show ?thesis by (intro conjI)
qed

end
